theory Spec2Isabelle
  imports Complex_Main
begin

section \<open>The jabberite test driver (echochamber/client.py)\<close>

text \<open>
  The class \<open>Client\<close> drives one child process (a jabberite chat client) through the
  pexpect library. The model below has three layers:
  \<^item> the regular expressions the driver uses, with a small matcher for the operators
    that occur in them;
  \<^item> the pexpect object \<open>self._process\<close>: what the child will still write, pexpect's
    buffer, the last match, what was sent to the child;
  \<^item> the methods of \<open>Client\<close>, as functions on a world that holds the wall clock, the
    \<open>Client\<close> objects by reference and the list of calls made so far.
  Exceptions are values: a method returns \<open>Inl\<close> an error or \<open>Inr\<close> its result, together
  with the world as the call left it (a Python exception does not undo assignments).
\<close>

subsection \<open>Python values\<close>

datatype error =
    AttributeError    \<comment> \<open>an attribute of \<open>None\<close> was used: \<open>self._process\<close> is \<open>None\<close>\<close>
  | TIMEOUT           \<comment> \<open>\<open>pexpect.TIMEOUT\<close>\<close>
  | EOF               \<comment> \<open>\<open>pexpect.EOF\<close>\<close>
  | ExceptionPexpect  \<comment> \<open>\<open>pexpect.spawn\<close> could not start the command\<close>
  | IndexError        \<comment> \<open>\<open>match.group(n)\<close> with no such group\<close>
  | ValueError        \<comment> \<open>\<open>int(s)\<close> on a string that is not a number\<close>

definition newline :: char where
  "newline = CHR 0x0A"

definition is_digit :: "char \<Rightarrow> bool" where
  "is_digit c = (c \<in> set ''0123456789'')"

definition is_word :: "char \<Rightarrow> bool" where
  "is_word c =
     (c \<in> set ''abcdefghijklmnopqrstuvwxyzABCDEFGHIJKLMNOPQRSTUVWXYZ0123456789_'')"

definition digit_val :: "char \<Rightarrow> int" where
  "digit_val c = int (of_char c) - 48"

text \<open>\<open>int(s)\<close>, for the strings it is applied to here: a \<open>\d+\<close> group.\<close>

definition py_int :: "string \<Rightarrow> error + int" where
  "py_int s =
     (if s \<noteq> [] \<and> list_all is_digit s
      then Inr (foldl (\<lambda>a c. 10 * a + digit_val c) 0 s)
      else Inl ValueError)"

definition digit_char :: "nat \<Rightarrow> char" where
  "digit_char n = ''0123456789'' ! n"

fun str_nat :: "nat \<Rightarrow> string" where
  "str_nat n = (if n < 10 then [digit_char n] else str_nat (n div 10) @ [digit_char (n mod 10)])"

declare str_nat.simps [simp del]

text \<open>\<open>str(n)\<close> of a Python integer.\<close>

definition str_int :: "int \<Rightarrow> string" where
  "str_int n = (if n < 0 then CHR ''-'' # str_nat (nat (- n)) else str_nat (nat n))"

text \<open>
  \<open>"{}".format(x)\<close> for a conversation id: an integer, or \<open>None\<close> when the driver has
  not selected a conversation yet.
\<close>

definition format_id :: "int option \<Rightarrow> string" where
  "format_id cid = (case cid of None \<Rightarrow> ''None'' | Some n \<Rightarrow> str_int n)"

text \<open>\<open>os.path.join(a, b)\<close> on a POSIX system.\<close>

definition path_join :: "string \<Rightarrow> string \<Rightarrow> string" where
  "path_join a b =
     (if b \<noteq> [] \<and> hd b = CHR ''/'' then b
      else if a = [] \<or> last a = CHR ''/'' then a @ b
      else a @ ''/'' @ b)"

subsection \<open>Regular expressions\<close>

text \<open>
  The patterns of the driver use literal characters, the classes \<open>\d\<close>, \<open>\w\<close> and \<open>.\<close>,
  the greedy operators \<open>+\<close> and \<open>*\<close> on one class, a capturing group around one such
  piece, and \<open>$\<close>. A pattern is the list of its pieces. The leading \<open>^\<close> of the message
  pattern is left out: that pattern is only used with \<open>match\<close>, which starts at the
  beginning of the line anyway.
\<close>

datatype atom = Chr char | Digit | Word | Dot

fun accepts :: "atom \<Rightarrow> char \<Rightarrow> bool" where
  "accepts (Chr a) c = (c = a)"
| "accepts Digit c = is_digit c"
| "accepts Word c = is_word c"
| "accepts Dot c = (c \<noteq> newline)"

datatype item = One atom | Plus atom | Star atom | Cap item | Eol

type_synonym pattern = "item list"

text \<open>
  The lengths a piece may take at the head of \<open>s\<close>, the preferred one first: a greedy
  operator tries the longest run and gives characters back one at a time. \<open>$\<close> matches at
  the end of the string and before a newline that ends it.
\<close>

fun lens :: "item \<Rightarrow> string \<Rightarrow> nat list" where
  "lens (One a) s = (case s of [] \<Rightarrow> [] | c # _ \<Rightarrow> if accepts a c then [1] else [])"
| "lens (Plus a) s = rev [1 ..< Suc (length (takeWhile (accepts a) s))]"
| "lens (Star a) s = rev [0 ..< Suc (length (takeWhile (accepts a) s))]"
| "lens (Cap it) s = lens it s"
| "lens Eol s = (if s = [] \<or> s = [newline] then [0] else [])"

fun caps :: "item \<Rightarrow> string \<Rightarrow> string list" where
  "caps (Cap it) x = [x]"
| "caps _ x = []"

fun first_some :: "'a option list \<Rightarrow> 'a option" where
  "first_some [] = None"
| "first_some (None # xs) = first_some xs"
| "first_some (Some x # xs) = Some x"

text \<open>Match a pattern at the head of \<open>s\<close>: the captured groups and the text left over.\<close>

fun rmatch :: "pattern \<Rightarrow> string \<Rightarrow> (string list \<times> string) option" where
  "rmatch [] s = Some ([], s)"
| "rmatch (it # its) s =
     first_some (map (\<lambda>n. case rmatch its (drop n s) of
                            None \<Rightarrow> None
                          | Some (gs, r) \<Rightarrow> Some (caps it (take n s) @ gs, r))
                     (lens it s))"

text \<open>\<open>pattern.match(s)\<close>: the groups of the match, group 0 (the matched text) first.\<close>

definition re_match :: "pattern \<Rightarrow> string \<Rightarrow> string list option" where
  "re_match pat s =
     (case rmatch pat s of
        None \<Rightarrow> None
      | Some (gs, r) \<Rightarrow> Some (take (length s - length r) s # gs))"

text \<open>
  \<open>pattern.search(s)\<close>: the leftmost match. The result is the text before the match, the
  groups, and the text after the match.
\<close>

fun re_search :: "pattern \<Rightarrow> string \<Rightarrow> (string \<times> string list \<times> string) option" where
  "re_search pat [] =
     (case rmatch pat [] of None \<Rightarrow> None | Some (gs, r) \<Rightarrow> Some ([], [] # gs, r))"
| "re_search pat (c # cs) =
     (case rmatch pat (c # cs) of
        Some (gs, r) \<Rightarrow> Some ([], take (Suc (length cs) - length r) (c # cs) # gs, r)
      | None \<Rightarrow> (case re_search pat cs of
                   None \<Rightarrow> None
                 | Some (b, gs, r) \<Rightarrow> Some (c # b, gs, r)))"

text \<open>Literal text inside a pattern.\<close>

definition lit :: "string \<Rightarrow> pattern" where
  "lit s = map (\<lambda>c. One (Chr c)) s"

text \<open>\<^verbatim>\<open>self.r_message = re.compile(r"^\*\* <(\d+)> <(\w+)> (.*)$")\<close>\<close>

definition r_message :: pattern where
  "r_message =
     lit ''** <'' @ [Cap (Plus Digit)] @ lit ''> <'' @ [Cap (Plus Word)] @ lit ''> ''
       @ [Cap (Star Dot), Eol]"

subsection \<open>The pexpect process object\<close>

text \<open>
  The child process and pexpect are not part of the repository. The child is taken as
  an arbitrary script: the bytes it will write, each with the time at which it reaches
  the pipe. Time is the wall clock in seconds; it advances only while a read waits for
  the child.
\<close>

record process =
  alive :: bool                       \<comment> \<open>the child has not been terminated\<close>
  pending :: "(real \<times> char) list"     \<comment> \<open>bytes not read yet, with their arrival times\<close>
  buffer :: string                    \<comment> \<open>read by \<open>expect\<close>, not matched yet\<close>
  pmatch :: "string list option"      \<comment> \<open>\<open>match\<close>: the groups of the last \<open>expect\<close>\<close>
  sent :: "string list"               \<comment> \<open>lines written to the child\<close>
  logfile :: "string option"          \<comment> \<open>name of the log file, or \<open>None\<close>\<close>
  timeout :: real                     \<comment> \<open>default timeout of \<open>expect\<close>\<close>

definition maxread :: nat where
  "maxread = 2000"

text \<open>\<open>sendline(s)\<close>: returns the number of bytes written.\<close>

definition sendline :: "string \<Rightarrow> process \<Rightarrow> nat \<times> process" where
  "sendline s p = (length s + 1, p\<lparr>sent := sent p @ [s]\<rparr>)"

text \<open>
  \<open>read_nonblocking(size, timeout)\<close> at time \<open>now\<close>: waits for the next byte until
  \<open>now + timeout\<close> at most; returns up to \<open>size\<close> of the bytes that are there when it
  wakes up, or raises \<open>TIMEOUT\<close> at the end of the wait, or \<open>EOF\<close> when the child is gone
  and nothing is left.
\<close>

definition read_nonblocking ::
  "nat \<Rightarrow> real \<Rightarrow> real \<Rightarrow> process \<Rightarrow> (error + string) \<times> real \<times> process" where
  "read_nonblocking sz budget now p =
     (case pending p of
        [] \<Rightarrow> if alive p then (Inl TIMEOUT, now + max 0 budget, p) else (Inl EOF, now, p)
      | (t, c) # out \<Rightarrow>
          if t \<le> now + max 0 budget then
            (let now' = max now t;
                 n = min sz (length (takeWhile (\<lambda>(t', c'). t' \<le> now') (pending p)))
             in (Inr (map snd (take n (pending p))), now', p\<lparr>pending := drop n (pending p)\<rparr>))
          else (Inl TIMEOUT, now + max 0 budget, p))"

lemma read_nonblocking_shorter:
  assumes "read_nonblocking sz budget now p = (Inr b, now', p')" and "0 < sz"
  shows "length (pending p') < length (pending p)"
  using assms unfolding read_nonblocking_def
  by (auto simp: Let_def split: list.splits if_splits)

text \<open>
  \<open>expect(pattern)\<close> with the default timeout: search the buffer; while nothing matches
  and time is left, read what has arrived (at most \<open>maxread\<close> bytes) and search again.
  On a match, the buffer keeps what follows the match. On \<open>TIMEOUT\<close> the buffer keeps all
  that was read; on \<open>EOF\<close> it is emptied. Both clear \<open>match\<close>.
\<close>

function expect_loop ::
  "pattern \<Rightarrow> real \<Rightarrow> real \<Rightarrow> process \<Rightarrow> (error + nat) \<times> real \<times> process" where
  "expect_loop pat end_time now p =
     (case re_search pat (buffer p) of
        Some (before, groups, rest) \<Rightarrow>
          (Inr 0, now, p\<lparr>buffer := rest, pmatch := Some groups\<rparr>)
      | None \<Rightarrow>
          if end_time < now then (Inl TIMEOUT, now, p\<lparr>pmatch := None\<rparr>)
          else (case read_nonblocking maxread (end_time - now) now p of
                  (Inl e, now', p') \<Rightarrow>
                    (Inl e, now', p'\<lparr>buffer := (if e = EOF then [] else buffer p'),
                                     pmatch := None\<rparr>)
                | (Inr c, now', p') \<Rightarrow>
                    expect_loop pat end_time now' (p'\<lparr>buffer := buffer p' @ c\<rparr>)))"
  by pat_completeness auto
termination
  apply (relation "measure (\<lambda>(pat, end_time, now, p). length (pending p))")
   apply simp
  apply (auto dest!: read_nonblocking_shorter[OF sym] simp: maxread_def)
  done

declare expect_loop.simps [simp del]

text \<open>\<open>terminate(force=True)\<close>: the child is killed.\<close>

definition terminate :: "process \<Rightarrow> process" where
  "terminate p = p\<lparr>alive := False\<rparr>"

subsection \<open>The driver and the world\<close>

text \<open>
  The fields of a \<open>Client\<close>. The capture of everything read (\<open>_process_output\<close>) and
  the calls to \<open>logging\<close> are for diagnosis only and are not modelled.
\<close>

record client =
  xmpp_user :: string
  xmpp_password :: string
  username :: string
  port :: string
  proxy :: "string option"
  process :: "process option"          \<comment> \<open>\<open>_process\<close>\<close>
  conversation_id :: "int option"
  debug :: bool
  np1sec_path :: string
  ld_library_path :: string
  jabberite_bin :: string
  messages :: "string list"
  env :: "(string \<times> string) list"

text \<open>
  \<open>__init__(xmpp_account, port, config, proxy)\<close>, with the two entries of
  \<open>xmpp_account\<close> and the two entries of \<open>config\<close> as arguments.
\<close>

definition Client_init ::
  "string \<Rightarrow> string \<Rightarrow> int \<Rightarrow> string \<Rightarrow> string \<Rightarrow> string option \<Rightarrow> client" where
  "Client_init user password port_no np1sec ld_library prx =
     \<lparr>xmpp_user = user,
      xmpp_password = password,
      username = takeWhile (\<lambda>c. c \<noteq> CHR ''@'') user,
      port = str_int port_no,
      proxy = prx,
      process = None,
      conversation_id = None,
      debug = False,
      np1sec_path = np1sec,
      ld_library_path = ld_library,
      jabberite_bin = path_join np1sec ''jabberite'',
      messages = [],
      env = []\<rparr>"

text \<open>
  What the driver asks of pexpect and of the operating system. Every such call is
  recorded in the world, with the time of the call and the driver that made it.
\<close>

datatype call =
    Spawn string "string list" "(string \<times> string) list"
  | Sendline string
  | Expect pattern
  | Read_nonblocking nat real
  | Terminate
  | Open_log string

record world =
  clock :: real                                \<comment> \<open>\<open>time.time()\<close>\<close>
  trace :: "(real \<times> nat \<times> call) list"
  drivers :: "nat \<Rightarrow> client"                   \<comment> \<open>the \<open>Client\<close> objects, by reference\<close>
  run_with_gdb :: bool                         \<comment> \<open>the option \<open>--run-with-gdb\<close>\<close>
  unspawned :: "(real \<times> char) list list"      \<comment> \<open>scripts of the children not started yet\<close>

type_synonym 'a op = "world \<Rightarrow> (error + 'a) \<times> world"

definition bind :: "'a op \<Rightarrow> ('a \<Rightarrow> 'b op) \<Rightarrow> 'b op" where
  "bind m f w = (case m w of (Inl e, w') \<Rightarrow> (Inl e, w') | (Inr x, w') \<Rightarrow> f x w')"

definition upd_driver :: "nat \<Rightarrow> (client \<Rightarrow> client) \<Rightarrow> world \<Rightarrow> world" where
  "upd_driver i f w = w\<lparr>drivers := (drivers w)(i := f (drivers w i))\<rparr>"

definition record_call :: "nat \<Rightarrow> call \<Rightarrow> world \<Rightarrow> world" where
  "record_call i c w = w\<lparr>trace := trace w @ [(clock w, i, c)]\<rparr>"

text \<open>
  A method call \<open>self._process.f(...)\<close>: an \<open>AttributeError\<close> when \<open>_process\<close> is
  \<open>None\<close>, otherwise the call is made on the process object.
\<close>

definition call_process ::
  "nat \<Rightarrow> call \<Rightarrow> (real \<Rightarrow> process \<Rightarrow> (error + 'a) \<times> real \<times> process) \<Rightarrow> 'a op" where
  "call_process i c f w =
     (case process (drivers w i) of
        None \<Rightarrow> (Inl AttributeError, w)
      | Some p \<Rightarrow>
          (case f (clock w) p of
             (r, now', p') \<Rightarrow>
               (r, upd_driver i (\<lambda>d. d\<lparr>process := Some p'\<rparr>)
                     ((record_call i c w)\<lparr>clock := now'\<rparr>))))"

subsection \<open>The methods of Client\<close>

definition set_debug :: "nat \<Rightarrow> bool \<Rightarrow> unit op" where
  "set_debug i enable w =
     (if enable then
        (let log_file = username (drivers w i) @ ''.log'';
             w1 = record_call i (Open_log log_file) w
         in case process (drivers w1 i) of
              None \<Rightarrow> (Inl AttributeError, w1)
            | Some p \<Rightarrow>
                (Inr (), upd_driver i (\<lambda>d. d\<lparr>process := Some (p\<lparr>logfile := Some log_file\<rparr>)\<rparr>) w1))
      else
        (case process (drivers w i) of
           None \<Rightarrow> (Inl AttributeError, w)
         | Some p \<Rightarrow>
             (Inr (), upd_driver i (\<lambda>d. d\<lparr>process := Some (p\<lparr>logfile := None\<rparr>)\<rparr>) w)))"

definition send_message :: "nat \<Rightarrow> string \<Rightarrow> nat op" where
  "send_message i message =
     call_process i (Sendline message)
       (\<lambda>now p. case sendline message p of (n, p') \<Rightarrow> (Inr n, now, p'))"

definition expect :: "nat \<Rightarrow> pattern \<Rightarrow> nat op" where
  "expect i pat =
     call_process i (Expect pat) (\<lambda>now p. expect_loop pat (now + timeout p) now p)"

definition unread :: "nat \<Rightarrow> world \<Rightarrow> nat" where
  "unread i w = (case process (drivers w i) of None \<Rightarrow> 0 | Some p \<Rightarrow> length (pending p))"

lemma call_process_read_unread:
  assumes "call_process i c (read_nonblocking 1 budget) w = (Inr b, w')"
  shows "unread i w' < unread i w"
proof (cases "process (drivers w i)")
  case None
  with assms show ?thesis by (simp add: call_process_def)
next
  case (Some p)
  obtain r now' p' where f: "read_nonblocking 1 budget (clock w) p = (r, now', p')"
    by (cases "read_nonblocking 1 budget (clock w) p") auto
  with assms Some have r: "r = Inr b"
    and w': "w' = upd_driver i (\<lambda>d. d\<lparr>process := Some p'\<rparr>)
                    ((record_call i c w)\<lparr>clock := now'\<rparr>)"
    by (auto simp: call_process_def)
  from f r have "length (pending p') < length (pending p)"
    using read_nonblocking_shorter by fastforce
  with Some w' show ?thesis
    by (simp add: unread_def upd_driver_def record_call_def)
qed

text \<open>
  \<open>read_line(timeout)\<close>: the loop, with the deadline \<open>end_time\<close> and the line read so
  far. The clock is read again before each read.
\<close>

function read_line_loop :: "nat \<Rightarrow> real \<Rightarrow> string \<Rightarrow> string op" where
  "read_line_loop i end_time line w =
     (let budget = max 0 (end_time - clock w) in
      case call_process i (Read_nonblocking 1 budget) (read_nonblocking 1 budget) w of
        (Inl e, w') \<Rightarrow> (Inl e, w')
      | (Inr b, w') \<Rightarrow>
          if b = [newline] then (Inr line, w')
          else read_line_loop i end_time (line @ b) w')"
  by pat_completeness auto
termination
  apply (relation "measure (\<lambda>(i, end_time, line, w). unread i w)")
   apply simp
  apply (auto simp del: One_nat_def dest!: call_process_read_unread[OF sym])
  done

declare read_line_loop.simps [simp del]

definition read_line :: "nat \<Rightarrow> real \<Rightarrow> string op" where
  "read_line i tmo w = read_line_loop i (clock w + tmo) [] w"

definition read_event :: "nat \<Rightarrow> real \<Rightarrow> unit op" where
  "read_event i tmo w =
     (case read_line i tmo w of
        (Inl e, w') \<Rightarrow> (Inl e, w')
      | (Inr line, w') \<Rightarrow>
          (case re_match r_message line of
             Some m \<Rightarrow> (Inr (), upd_driver i (\<lambda>d. d\<lparr>messages := messages d @ [line]\<rparr>) w')
           | None \<Rightarrow> (Inr (), w')))"

lemma read_line_loop_unfold:
  "read_line_loop i end_time line w =
     (case call_process i (Read_nonblocking 1 (max 0 (end_time - clock w)))
             (read_nonblocking 1 (max 0 (end_time - clock w))) w of
        (Inl e, w') \<Rightarrow> (Inl e, w')
      | (Inr b, w') \<Rightarrow>
          if b = [newline] then (Inr line, w')
          else read_line_loop i end_time (line @ b) w')"
  by (subst read_line_loop.simps) (simp add: Let_def)

lemma read_line_loop_induct [case_names step]:
  assumes "\<And>line w.
      (\<And>b w1. call_process i (Read_nonblocking 1 (max 0 (end_time - clock w)))
                  (read_nonblocking 1 (max 0 (end_time - clock w))) w = (Inr b, w1)
               \<Longrightarrow> b \<noteq> [newline] \<Longrightarrow> P (line @ b) w1)
      \<Longrightarrow> P line w"
  shows "P line w"
proof -
  have "i' = i \<Longrightarrow> e' = end_time \<Longrightarrow> P line w" for i' e'
  proof (induction i' e' line w rule: read_line_loop.induct)
    case (1 i' e' line w)
    show ?case
    proof (rule assms)
      fix b w1
      assume "call_process i (Read_nonblocking 1 (max 0 (end_time - clock w)))
                (read_nonblocking 1 (max 0 (end_time - clock w))) w = (Inr b, w1)"
        and "b \<noteq> [newline]"
      with 1 show "P (line @ b) w1" by simp
    qed
  qed
  then show ?thesis by simp
qed

lemma read_line_loop_unread:
  "read_line_loop i end_time line w = (Inr x, w') \<Longrightarrow> unread i w' < unread i w"
proof (induction line w rule: read_line_loop_induct [where i = i and end_time = end_time])
  case (step line w)
  let ?b = "max 0 (end_time - clock w)"
  obtain r w1 where c: "call_process i (Read_nonblocking 1 ?b) (read_nonblocking 1 ?b) w = (r, w1)"
    by fastforce
  show ?case
  proof (cases r)
    case (Inl e)
    with step.prems c show ?thesis by (simp add: read_line_loop_unfold [of i end_time line w])
  next
    case (Inr b)
    with c have less: "unread i w1 < unread i w" by (simp add: call_process_read_unread)
    show ?thesis
    proof (cases "b = [newline]")
      case True
      with step.prems c Inr less show ?thesis
        by (simp add: read_line_loop_unfold [of i end_time line w])
    next
      case False
      with step.prems c Inr have "read_line_loop i end_time (line @ b) w1 = (Inr x, w')"
        by (simp add: read_line_loop_unfold [of i end_time line w])
      with step.IH [of b w1] c Inr False less show ?thesis by simp
    qed
  qed
qed

lemma read_event_unread:
  assumes "read_event i tmo w = (Inr x, w')"
  shows "unread i w' < unread i w"
proof -
  obtain r w1 where l: "read_line i tmo w = (r, w1)" by fastforce
  with assms obtain line where r: "r = Inr line"
    by (cases r) (auto simp: read_event_def)
  from l r have "unread i w1 < unread i w"
    by (simp add: read_line_def read_line_loop_unread)
  moreover from assms l r have "unread i w' = unread i w1"
    by (auto simp: read_event_def unread_def upd_driver_def split: option.splits)
  ultimately show ?thesis by simp
qed

text \<open>\<open>read_message(timeout)\<close>: the loop, with the deadline \<open>end_time\<close>.\<close>

function read_message_loop :: "nat \<Rightarrow> real \<Rightarrow> string op" where
  "read_message_loop i end_time w =
     (case messages (drivers w i) of
        m # ms \<Rightarrow> (Inr m, upd_driver i (\<lambda>d. d\<lparr>messages := ms\<rparr>) w)
      | [] \<Rightarrow>
          (let time_remaining = max 0 (end_time - clock w) in
           case read_event i time_remaining w of
             (Inl e, w') \<Rightarrow> (Inl e, w')
           | (Inr u, w') \<Rightarrow> read_message_loop i end_time w'))"
  by pat_completeness auto
termination
  apply (relation "measure (\<lambda>(i, end_time, w). unread i w)")
   apply simp
  apply (auto dest!: read_event_unread[OF sym])
  done

declare read_message_loop.simps [simp del]

definition read_message :: "nat \<Rightarrow> real \<Rightarrow> string op" where
  "read_message i tmo w = read_message_loop i (clock w + tmo) w"

definition return :: "'a \<Rightarrow> 'a op" where
  "return x w = (Inr x, w)"

definition lift :: "error + 'a \<Rightarrow> 'a op" where
  "lift r w = (r, w)"

text \<open>
  \<open>pexpect.spawn(command, args, env=..., echo=False, timeout=...)\<close>: the next child
  starts; the call fails when there is none to start.
\<close>

definition spawn ::
  "nat \<Rightarrow> string \<Rightarrow> string list \<Rightarrow> (string \<times> string) list \<Rightarrow> real \<Rightarrow> process op" where
  "spawn i command args environ tmo w =
     (case unspawned w of
        [] \<Rightarrow> (Inl ExceptionPexpect, record_call i (Spawn command args environ) w)
      | out # rest \<Rightarrow>
          (Inr \<lparr>alive = True, pending = out, buffer = [], pmatch = None, sent = [],
                logfile = None, timeout = tmo\<rparr>,
           (record_call i (Spawn command args environ) w)\<lparr>unspawned := rest\<rparr>))"

text \<open>\<^verbatim>\<open>self.expect(r"\*\* Connected")\<close>\<close>

definition connected_pattern :: pattern where
  "connected_pattern = lit ''** Connected''"

definition connect :: "nat \<Rightarrow> string \<Rightarrow> string \<Rightarrow> unit op" where
  "connect i room server w =
     (let d = drivers w i;
          cmd_args = [''--account'', xmpp_user d,
                      ''--password'', xmpp_password d,
                      ''--server'', server,
                      ''--port'', port d,
                      ''--room'', room];
          w1 = upd_driver i
                 (\<lambda>d. d\<lparr>env := [(''LD_LIBRARY_PATH'',
                                   np1sec_path d @ '':'' @ ld_library_path d)]\<rparr>) w;
          command = (if run_with_gdb w1 then ''gdb'' else jabberite_bin d);
          cmd_args = (if run_with_gdb w1
                      then [''-ex'', ''run'', ''--args'', jabberite_bin d] @ cmd_args
                      else cmd_args)
      in if process (drivers w1 i) = None then
           bind (spawn i command cmd_args (env (drivers w1 i)) 3600)
             (\<lambda>p. bind (\<lambda>w2. (Inr (), upd_driver i
                                  (\<lambda>d. d\<lparr>process := Some (p\<lparr>logfile := None\<rparr>)\<rparr>) w2))
             (\<lambda>_. bind (expect i connected_pattern)
             (\<lambda>_. return ()))) w1
         else (Inr (), w1))"

text \<open>\<open>self._process.match.group(n)\<close>\<close>

definition match_group :: "nat \<Rightarrow> nat \<Rightarrow> string op" where
  "match_group i n w =
     (case process (drivers w i) of
        None \<Rightarrow> (Inl AttributeError, w)
      | Some p \<Rightarrow>
          (case pmatch p of
             None \<Rightarrow> (Inl AttributeError, w)
           | Some gs \<Rightarrow> if n < length gs then (Inr (gs ! n), w) else (Inl IndexError, w)))"

text \<open>\<^verbatim>\<open>r"\*\* Created conversation (\d+):"\<close>\<close>

definition created_pattern :: pattern where
  "created_pattern = lit ''** Created conversation '' @ [Cap (Plus Digit)] @ lit '':''"

definition create_conversation :: "nat \<Rightarrow> int op" where
  "create_conversation i =
     bind (send_message i ''/create'')
       (\<lambda>_. bind (expect i created_pattern)
       (\<lambda>_. bind (match_group i 1)
       (\<lambda>g. lift (py_int g))))"

text \<open>\<^verbatim>\<open>r"\*\* Selecting conversation (\d+)"\<close>\<close>

definition selecting_pattern :: pattern where
  "selecting_pattern = lit ''** Selecting conversation '' @ [Cap (Plus Digit)]"

definition select_conversation :: "nat \<Rightarrow> int option \<Rightarrow> int option op" where
  "select_conversation i cid =
     bind (send_message i (''/select '' @ format_id cid))
       (\<lambda>_. bind (expect i selecting_pattern)
       (\<lambda>_. bind (match_group i 1)
       (\<lambda>g. bind (lift (py_int g))
       (\<lambda>n. bind (\<lambda>w. (Inr (), upd_driver i (\<lambda>d. d\<lparr>conversation_id := Some n\<rparr>) w))
       (\<lambda>_ w. return (conversation_id (drivers w i)) w)))))"

text \<open>
  \<^verbatim>\<open>r"\*\* <(\d)> {} invited user {}".format(self.username, username)\<close>. The names
  are put into the pattern as they are; they are taken to be free of regular expression
  operators, as the handles of the message pattern (\<open>\w+\<close>) are.
\<close>

definition invited_pattern :: "string \<Rightarrow> string \<Rightarrow> pattern" where
  "invited_pattern inviter invitee =
     lit ''** <'' @ [Cap (One Digit)] @ lit (''> '' @ inviter @ '' invited user '' @ invitee)"

definition invite_conversation :: "nat \<Rightarrow> string \<Rightarrow> unit op" where
  "invite_conversation i uname =
     bind (send_message i (''/invite '' @ uname))
       (\<lambda>_ w. bind (expect i (invited_pattern (username (drivers w i)) uname))
       (\<lambda>_. return ()) w)"

text \<open>\<^verbatim>\<open>r"\*\* Invited to conversation {}".format(conversation_id)\<close>\<close>

definition invitation_pattern :: "int option \<Rightarrow> pattern" where
  "invitation_pattern cid = lit (''** Invited to conversation '' @ format_id cid)"

definition you_joined_pattern :: pattern where
  "you_joined_pattern = lit ''you joined the chat session''"

definition join_conversation :: "nat \<Rightarrow> int option \<Rightarrow> unit op" where
  "join_conversation i cid =
     bind (expect i (invitation_pattern cid))
       (\<lambda>_. bind (select_conversation i cid)
       (\<lambda>_. bind (send_message i ''/join'')
       (\<lambda>_. bind (expect i you_joined_pattern)
       (\<lambda>_. return ()))))"

text \<open>\<^verbatim>\<open>"{} joined the chat session".format(client.username)\<close>\<close>

definition joined_pattern :: "string \<Rightarrow> pattern" where
  "joined_pattern uname = lit (uname @ '' joined the chat session'')"

text \<open>
  \<open>invite_and_join_conversation(client)\<close> on the driver \<open>i\<close>, with \<open>j\<close> the driver
  passed as \<open>client\<close>.
\<close>

definition invite_and_join_conversation :: "nat \<Rightarrow> nat \<Rightarrow> unit op" where
  "invite_and_join_conversation i j w =
     bind (invite_conversation i (username (drivers w j)))
       (\<lambda>_ w1. bind (join_conversation j (conversation_id (drivers w1 i)))
       (\<lambda>_ w2. bind (expect i (joined_pattern (username (drivers w2 j))))
       (\<lambda>_. return ()) w2) w1) w"

definition stop :: "nat \<Rightarrow> unit op" where
  "stop i w =
     (case process (drivers w i) of
        None \<Rightarrow> (Inr (), w)
      | Some p \<Rightarrow> call_process i Terminate (\<lambda>now p. (Inr (), now, terminate p)) w)"

subsection \<open>Test scenarios\<close>

text \<open>
  Two drivers, \<open>alice\<close> (number 0) and \<open>bob\<close> (every other number), as the constructor
  leaves them, and a running child process with a given script.
\<close>

definition alice :: client where
  "alice = Client_init ''alice@localhost'' ''secret'' 5222 ''/opt/np1sec'' ''/opt/lib'' None"

definition bob :: client where
  "bob = Client_init ''bob@localhost'' ''hunter2'' 5222 ''/opt/np1sec'' ''/opt/lib'' None"

definition fresh_world :: world where
  "fresh_world =
     \<lparr>clock = 0, trace = [], drivers = (\<lambda>n. if n = 0 then alice else bob),
      run_with_gdb = False, unspawned = []\<rparr>"

definition running :: "(real \<times> char) list \<Rightarrow> process" where
  "running script =
     \<lparr>alive = True, pending = script, buffer = [], pmatch = None, sent = [],
      logfile = None, timeout = 3600\<rparr>"

text \<open>The text \<open>s\<close>, all of it arriving at time \<open>t\<close>.\<close>

definition arriving :: "real \<Rightarrow> string \<Rightarrow> (real \<times> char) list" where
  "arriving t s = map (\<lambda>c. (t, c)) s"

text \<open>The world in which alice's child runs the given script.\<close>

definition alice_running :: "(real \<times> char) list \<Rightarrow> world" where
  "alice_running script =
     upd_driver 0 (\<lambda>d. d\<lparr>process := Some (running script)\<rparr>) fresh_world"

text \<open>
  Alice's child writes half of a message line at once and the rest five seconds later.
\<close>

definition half_line :: world where
  "half_line = alice_running (arriving 0 ''** <1> <al'' @ arriving 5 (''ice> hi'' @ [newline]))"

text \<open>Alice's child writes one message line.\<close>

definition hello_bob :: world where
  "hello_bob = alice_running (arriving 0 (''** <42> <bob> hello world'' @ [newline]))"

definition hi_alice :: world where
  "hi_alice = alice_running (arriving 0 (''** <1> <alice> hi'' @ [newline]))"

text \<open>Alice's child writes two message lines.\<close>

definition two_messages :: world where
  "two_messages =
     alice_running (arriving 0 (''** <1> <bob> one'' @ [newline] @ ''** <1> <bob> two'' @ [newline]))"


definition confirms_12 :: world where
  "confirms_12 = alice_running (arriving 0 (''** Selecting conversation 12'' @ [newline]))"


subsection \<open>Notions used in the properties\<close>

text \<open>An operation leaves the field \<open>g\<close> of every driver as it was.\<close>

definition keeps :: "(client \<Rightarrow> 'b) \<Rightarrow> 'a op \<Rightarrow> bool" where
  "keeps g m = (\<forall>w j. g (drivers (snd (m w)) j) = g (drivers w j))"

text \<open>
  An operation makes the calls \<open>S\<close> in this order, all of them when it succeeds and
  the first few of them when it fails.
\<close>

definition performs :: "(nat \<times> call) list \<Rightarrow> 'a op \<Rightarrow> bool" where
  "performs S m =
     (\<forall>w. \<exists>n\<le>length S. map snd (trace (snd (m w))) = map snd (trace w) @ take n S
                        \<and> (\<forall>x. fst (m w) = Inr x \<longrightarrow> n = length S))"

definition drop_pending :: "nat \<Rightarrow> process \<Rightarrow> process" where
  "drop_pending n p = p\<lparr>pending := drop n (pending p)\<rparr>"

definition consumed :: "nat \<Rightarrow> nat \<Rightarrow> (nat \<Rightarrow> client) \<Rightarrow> (nat \<Rightarrow> client)" where
  "consumed i n ds = ds(i := (ds i)\<lparr>process := map_option (drop_pending n) (process (ds i))\<rparr>)"

text \<open>
  What a failed \<open>expect\<close> has done to the process: the first \<open>n\<close> bytes are in the
  buffer and the last match is gone.
\<close>

definition buffered :: "nat \<Rightarrow> process \<Rightarrow> process" where
  "buffered n p =
     p\<lparr>pending := drop n (pending p),
       buffer := buffer p @ map snd (take n (pending p)),
       pmatch := None\<rparr>"


text \<open>No newline reaches the pipe by the time \<open>t\<close>.\<close>

definition no_line_by :: "real \<Rightarrow> (real \<times> char) list \<Rightarrow> bool" where
  "no_line_by t script = list_all (\<lambda>(t', c). c = newline \<longrightarrow> t < t') script"

text \<open>The text of a message line with the given conversation id, sender and body.\<close>

definition message_line :: "string \<Rightarrow> string \<Rightarrow> string \<Rightarrow> string" where
  "message_line ds ws body = ''** <'' @ ds @ ''> <'' @ ws @ ''> '' @ body"

section \<open>Properties\<close>

lemma process_same: "process d = x \<Longrightarrow> d\<lparr>process := x\<rparr> = d"
  by (cases d) simp

subsection \<open>Reading one byte, reading a line\<close>

lemma upd_same_process:
  "process (drivers w i) = Some p \<Longrightarrow> upd_driver i (\<lambda>d. d\<lparr>process := Some p\<rparr>) w = w"
  by (simp add: upd_driver_def process_same)

lemma read1_unfold:
  "call_process i c (read_nonblocking 1 b) w =
     (case process (drivers w i) of
        None \<Rightarrow> (Inl AttributeError, w)
      | Some p \<Rightarrow>
          (case pending p of
             [] \<Rightarrow> if alive p
                   then (Inl TIMEOUT, (record_call i c w)\<lparr>clock := clock w + max 0 b\<rparr>)
                   else (Inl EOF, record_call i c w)
           | (t, ch) # out \<Rightarrow>
               if t \<le> clock w + max 0 b
               then (Inr [ch], upd_driver i (\<lambda>d. d\<lparr>process := Some (p\<lparr>pending := out\<rparr>)\<rparr>)
                                 ((record_call i c w)\<lparr>clock := max (clock w) t\<rparr>))
               else (Inl TIMEOUT, (record_call i c w)\<lparr>clock := clock w + max 0 b\<rparr>)))"
proof (cases "process (drivers w i)")
  case None
  then show ?thesis by (simp add: call_process_def)
next
  case (Some p)
  have same: "upd_driver i (\<lambda>d. d\<lparr>process := Some p\<rparr>) ((record_call i c w)\<lparr>clock := x\<rparr>)
                = (record_call i c w)\<lparr>clock := x\<rparr>" for x
    by (rule upd_same_process) (simp add: record_call_def Some)
  have rc: "(record_call i c w)\<lparr>clock := clock w\<rparr> = record_call i c w"
    by (simp add: record_call_def)
  have same0: "upd_driver i (\<lambda>d. d\<lparr>process := Some p\<rparr>) (record_call i c w) = record_call i c w"
    by (rule upd_same_process) (simp add: record_call_def Some)
  show ?thesis
  proof (cases "pending p")
    case Nil
    with Some same same0 rc show ?thesis
      by (simp add: call_process_def read_nonblocking_def)
  next
    case (Cons x out)
    obtain t ch where x: "x = (t, ch)" by (cases x)
    with Some Cons same show ?thesis
      by (simp add: call_process_def read_nonblocking_def Let_def)
  qed
qed

lemmas read1_unfold_Suc = read1_unfold [unfolded One_nat_def]

lemma consumed_0: "consumed i 0 ds = ds"
proof -
  have "map_option (drop_pending 0) x = x" for x
    by (cases x) (simp_all add: drop_pending_def)
  then show ?thesis by (simp add: consumed_def process_same)
qed

lemma consumed_consumed: "consumed i m (consumed i n ds) = consumed i (n + m) ds"
proof -
  have "map_option (drop_pending m) (map_option (drop_pending n) x) = map_option (drop_pending (n + m)) x" for x
    by (cases x) (simp_all add: drop_pending_def add.commute)
  then show ?thesis by (simp add: consumed_def)
qed

lemma read1_drivers:
  assumes "call_process i c (read_nonblocking 1 b) w = (r, w')"
  shows "drivers w' = consumed i (case r of Inl e \<Rightarrow> 0 | Inr x \<Rightarrow> 1) (drivers w)"
proof (cases r)
  case (Inl e)
  with assms have "drivers w' = drivers w"
    by (auto simp: read1_unfold_Suc record_call_def
             split: option.splits list.splits if_splits)
  with Inl show ?thesis by (simp add: consumed_0)
next
  case (Inr x)
  with assms show ?thesis
    by (auto simp: read1_unfold_Suc consumed_def upd_driver_def record_call_def drop_pending_def
             split: option.splits list.splits if_splits)
qed

lemma read_line_loop_drivers:
  "read_line_loop i end_time line w = (r, w') \<Longrightarrow> \<exists>n. drivers w' = consumed i n (drivers w)"
proof (induction line w rule: read_line_loop_induct [where i = i and end_time = end_time])
  case (step line w)
  let ?b = "max 0 (end_time - clock w)"
  obtain r1 w1 where c: "call_process i (Read_nonblocking 1 ?b) (read_nonblocking 1 ?b) w = (r1, w1)"
    by fastforce
  note d = read1_drivers [OF c]
  show ?case
  proof (cases r1)
    case (Inl e)
    with step.prems c d show ?thesis
      by (auto simp: read_line_loop_unfold [of i end_time line w])
  next
    case (Inr b)
    show ?thesis
    proof (cases "b = [newline]")
      case True
      with step.prems c Inr d show ?thesis
        by (auto simp: read_line_loop_unfold [of i end_time line w])
    next
      case False
      with step.prems c Inr have "read_line_loop i end_time (line @ b) w1 = (r, w')"
        by (simp add: read_line_loop_unfold [of i end_time line w])
      with step.IH [of b w1] c Inr False obtain n where "drivers w' = consumed i n (drivers w1)"
        by auto
      with d Inr show ?thesis by (auto simp: consumed_consumed)
    qed
  qed
qed





lemma read_line_loop_timeout:
  "process (drivers w i) = Some p \<Longrightarrow> alive p \<Longrightarrow>
   no_line_by (max (clock w) end_time) (pending p) \<Longrightarrow>
     fst (read_line_loop i end_time line w) = Inl TIMEOUT"
proof (induction line w arbitrary: p rule: read_line_loop_induct [where i = i and end_time = end_time])
  case (step line w)
  let ?b = "max 0 (end_time - clock w)"
  have m: "clock w + ?b = max (clock w) end_time" by auto
  show ?case
  proof (cases "pending p")
    case Nil
    with step.prems show ?thesis
      by (simp add: read_line_loop_unfold [of i end_time line w] read1_unfold read1_unfold_Suc)
  next
    case (Cons x out)
    obtain t ch where x: "x = (t, ch)" by (cases x)
    show ?thesis
    proof (cases "t \<le> max (clock w) end_time")
      case False
      with step.prems Cons x m show ?thesis
        by (simp add: read_line_loop_unfold [of i end_time line w] read1_unfold read1_unfold_Suc)
    next
      case True
      with step.prems(3) Cons x have ch: "ch \<noteq> newline"
        by (auto simp: no_line_by_def)
      let ?w1 = "upd_driver i (\<lambda>d. d\<lparr>process := Some (p\<lparr>pending := out\<rparr>)\<rparr>)
                   ((record_call i (Read_nonblocking 1 ?b) w)\<lparr>clock := max (clock w) t\<rparr>)"
      from step.prems Cons x True m
      have c: "call_process i (Read_nonblocking 1 ?b) (read_nonblocking 1 ?b) w = (Inr [ch], ?w1)"
        by (simp add: read1_unfold read1_unfold_Suc)
      have p1: "process (drivers ?w1 i) = Some (p\<lparr>pending := out\<rparr>)"
        by (simp add: upd_driver_def)
      have "max (clock ?w1) end_time \<le> max (clock w) end_time"
        using True by (simp add: upd_driver_def)
      with step.prems(3) Cons
      have n1: "no_line_by (max (clock ?w1) end_time) (pending (p\<lparr>pending := out\<rparr>))"
        by (auto simp: no_line_by_def list_all_iff)
      have "fst (read_line_loop i end_time (line @ [ch]) ?w1) = Inl TIMEOUT"
        using step.IH [OF c _ p1 _ n1] ch step.prems(2) by simp
      with c ch show ?thesis
        by (simp add: read_line_loop_unfold [of i end_time line w])
    qed
  qed
qed

lemma read_line_loop_result:
  "read_line_loop i end_time line w = (Inr x, w') \<Longrightarrow> process (drivers w i) = Some p \<Longrightarrow>
     x = line @ takeWhile (\<lambda>c. c \<noteq> newline) (map snd (pending p))
     \<and> drivers w' =
         consumed i (Suc (length (takeWhile (\<lambda>c. c \<noteq> newline) (map snd (pending p))))) (drivers w)"
proof (induction line w arbitrary: p rule: read_line_loop_induct [where i = i and end_time = end_time])
  case (step line w)
  let ?b = "max 0 (end_time - clock w)"
  obtain r1 w1 where c: "call_process i (Read_nonblocking 1 ?b) (read_nonblocking 1 ?b) w = (r1, w1)"
    by fastforce
  with step.prems obtain b where r1: "r1 = Inr b"
    by (cases r1) (auto simp: read_line_loop_unfold [of i end_time line w])
  from c r1 step.prems(2) obtain t ch out
    where pend: "pending p = (t, ch) # out" and b: "b = [ch]"
      and w1: "w1 = upd_driver i (\<lambda>d. d\<lparr>process := Some (p\<lparr>pending := out\<rparr>)\<rparr>)
                     ((record_call i (Read_nonblocking 1 ?b) w)\<lparr>clock := max (clock w) t\<rparr>)"
    by (auto simp: read1_unfold read1_unfold_Suc split: list.splits if_splits)
  from read1_drivers [OF c] r1 have d: "drivers w1 = consumed i 1 (drivers w)" by simp
  show ?case
  proof (cases "ch = newline")
    case True
    with step.prems(1) c r1 b have "x = line" "w' = w1"
      by (auto simp: read_line_loop_unfold [of i end_time line w])
    with True pend d show ?thesis by simp
  next
    case False
    with step.prems(1) c r1 b have l: "read_line_loop i end_time (line @ [ch]) w1 = (Inr x, w')"
      by (simp add: read_line_loop_unfold [of i end_time line w])
    have p1: "process (drivers w1 i) = Some (p\<lparr>pending := out\<rparr>)"
      by (simp add: w1 upd_driver_def)
    from step.IH [of b w1, OF _ _ _ p1] c r1 b False l
    have "x = (line @ [ch]) @ takeWhile (\<lambda>c. c \<noteq> newline) (map snd out)"
      and "drivers w' = consumed i (Suc (length (takeWhile (\<lambda>c. c \<noteq> newline) (map snd out)))) (drivers w1)"
      by auto
    with False pend d show ?thesis by (simp add: consumed_consumed)
  qed
qed

subsection \<open>The message pattern\<close>

lemma first_some_map_Some:
  "first_some (map f xs) = Some y \<Longrightarrow> \<exists>x \<in> set xs. f x = Some y"
proof (induction xs)
  case Nil
  then show ?case by simp
next
  case (Cons x xs)
  then show ?case by (cases "f x") auto
qed

lemma first_some_map_hd: "f x = Some y \<Longrightarrow> first_some (map f (x # xs)) = Some y"
  by simp

lemma rmatch_lit: "rmatch (lit l @ its) (l @ s) = rmatch its s"
  by (induction l) (auto simp: lit_def split: option.splits)

lemma rmatch_lit_sound:
  "rmatch (lit l @ its) s = Some x \<Longrightarrow> \<exists>s'. s = l @ s' \<and> rmatch its s' = Some x"
proof (induction l arbitrary: s x)
  case Nil
  then show ?case by (simp add: lit_def)
next
  case (Cons c l)
  from Cons.prems obtain s1 where s: "s = c # s1"
    by (cases s) (auto simp: lit_def split: if_splits)
  with Cons.prems have "rmatch (lit l @ its) s1 = Some x"
    by (auto simp: lit_def split: option.splits)
  from Cons.IH [OF this] s show ?case by auto
qed

lemma rmatch_greedy:
  assumes "rmatch its (drop (length (takeWhile (accepts a) s)) s) = Some (gs, r)"
    and "it = Plus a \<and> takeWhile (accepts a) s \<noteq> [] \<or> it = Star a"
  shows "rmatch (Cap it # its) s = Some (takeWhile (accepts a) s # gs, r)"
proof -
  let ?k = "length (takeWhile (accepts a) s)"
  have t: "take ?k s = takeWhile (accepts a) s"
    by (metis append_eq_conv_conj takeWhile_dropWhile_id)
  from assms(2) obtain rest where "lens (Cap it) s = ?k # rest"
    by (cases "?k") auto
  with assms(1) t show ?thesis by simp
qed

lemma take_accepted:
  assumes "n \<le> length (takeWhile P s)"
  shows "list_all P (take n s)"
proof -
  have "take n s = take n (takeWhile P s @ dropWhile P s)" by simp
  also have "\<dots> = take n (takeWhile P s)" using assms by (simp del: takeWhile_dropWhile_id)
  finally have "set (take n s) \<subseteq> set (takeWhile P s)" by (simp add: set_take_subset)
  then show ?thesis by (auto simp: list_all_iff dest: set_takeWhileD)
qed

lemma rmatch_plus_sound:
  assumes "rmatch (Cap (Plus a) # its) s = Some (gs, r)"
  shows "\<exists>x s' gs'. s = x @ s' \<and> x \<noteq> [] \<and> list_all (accepts a) x
            \<and> rmatch its s' = Some (gs', r) \<and> gs = x # gs'"
proof -
  define f where "f = (\<lambda>n. case rmatch its (drop n s) of None \<Rightarrow> None
             | Some (gs', r') \<Rightarrow> Some (caps (Cap (Plus a)) (take n s) @ gs', r'))"
  from assms have "first_some (map f (lens (Cap (Plus a)) s)) = Some (gs, r)"
    unfolding f_def by (simp only: rmatch.simps)
  then obtain n where n: "n \<in> set (lens (Cap (Plus a)) s)" and "f n = Some (gs, r)"
    using first_some_map_Some by fast
  then have m: "(case rmatch its (drop n s) of None \<Rightarrow> None
             | Some (gs', r') \<Rightarrow> Some (caps (Cap (Plus a)) (take n s) @ gs', r')) = Some (gs, r)"
    by (simp add: f_def)
  from n have le: "1 \<le> n" "n \<le> length (takeWhile (accepts a) s)" by auto
  from m obtain gs' where "rmatch its (drop n s) = Some (gs', r)" "gs = take n s # gs'"
    by (auto split: option.splits)
  moreover have "s = take n s @ drop n s" by simp
  moreover have "take n s \<noteq> []" using le by (cases s) auto
  moreover have "list_all (accepts a) (take n s)" using le(2) by (rule take_accepted)
  ultimately show ?thesis by blast
qed

lemma rmatch_star_sound:
  assumes "rmatch (Cap (Star a) # its) s = Some (gs, r)"
  shows "\<exists>x s' gs'. s = x @ s' \<and> list_all (accepts a) x
            \<and> rmatch its s' = Some (gs', r) \<and> gs = x # gs'"
proof -
  define f where "f = (\<lambda>n. case rmatch its (drop n s) of None \<Rightarrow> None
             | Some (gs', r') \<Rightarrow> Some (caps (Cap (Star a)) (take n s) @ gs', r'))"
  from assms have "first_some (map f (lens (Cap (Star a)) s)) = Some (gs, r)"
    unfolding f_def by (simp only: rmatch.simps)
  then obtain n where n: "n \<in> set (lens (Cap (Star a)) s)" and "f n = Some (gs, r)"
    using first_some_map_Some by fast
  then have m: "(case rmatch its (drop n s) of None \<Rightarrow> None
             | Some (gs', r') \<Rightarrow> Some (caps (Cap (Star a)) (take n s) @ gs', r')) = Some (gs, r)"
    by (simp add: f_def)
  from n have le: "n \<le> length (takeWhile (accepts a) s)" by auto
  from m obtain gs' where "rmatch its (drop n s) = Some (gs', r)" "gs = take n s # gs'"
    by (auto split: option.splits)
  moreover have "s = take n s @ drop n s" by simp
  moreover have "list_all (accepts a) (take n s)" using le by (rule take_accepted)
  ultimately show ?thesis by blast
qed

lemma rmatch_eol: "rmatch [Eol] s = Some (gs, r) \<Longrightarrow> (s = [] \<or> s = [newline]) \<and> gs = [] \<and> r = s"
  by (auto split: if_splits)

lemma takeWhile_stop:
  "list_all P x \<Longrightarrow> \<not> P c \<Longrightarrow> takeWhile P (x @ c # s) = x"
  by (induction x) auto

lemma takeWhile_all: "list_all P x \<Longrightarrow> takeWhile P x = x"
  by (induction x) auto

lemma r_message_complete:
  assumes "ds \<noteq> []" "list_all is_digit ds" "ws \<noteq> []" "list_all is_word ws"
    and "newline \<notin> set body"
  shows "rmatch r_message (message_line ds ws body) = Some ([ds, ws, body], [])"
proof -
  let ?R3 = "[Cap (Star Dot), Eol]"
  let ?R2 = "Cap (Plus Word) # lit ''> '' @ ?R3"
  let ?R1 = "Cap (Plus Digit) # lit ''> <'' @ ?R2"
  let ?s2 = "ws @ ''> '' @ body"
  let ?s1 = "ds @ ''> <'' @ ?s2"
  have body: "takeWhile (accepts Dot) body = body"
    using assms(5) by (intro takeWhile_all) (auto simp: list_all_iff)
  have "list_all (accepts Word) ws" "\<not> accepts Word CHR ''>''"
    using assms(4) by (simp_all add: list_all_iff is_word_def)
  then have w: "takeWhile (accepts Word) ?s2 = ws"
    using takeWhile_stop [of "accepts Word" ws "CHR ''>''" "'' '' @ body"] by simp
  have "list_all (accepts Digit) ds" "\<not> accepts Digit CHR ''>''"
    using assms(2) by (simp_all add: list_all_iff is_digit_def)
  then have d: "takeWhile (accepts Digit) ?s1 = ds"
    using takeWhile_stop [of "accepts Digit" ds "CHR ''>''" "'' <'' @ ?s2"] by simp
  have "rmatch [Eol] (drop (length (takeWhile (accepts Dot) body)) body) = Some ([], [])"
    by (simp add: body)
  then have "rmatch (Cap (Star Dot) # [Eol]) body = Some (takeWhile (accepts Dot) body # [], [])"
    by (rule rmatch_greedy) simp
  then have 3: "rmatch ?R3 body = Some ([body], [])"
    by (simp only: body)
  have "rmatch (lit ''> '' @ ?R3) (drop (length (takeWhile (accepts Word) ?s2)) ?s2)
          = Some ([body], [])"
    using rmatch_lit [of "''> ''" ?R3 body] 3 by (simp only: w) simp
  then have "rmatch (Cap (Plus Word) # lit ''> '' @ ?R3) ?s2
          = Some (takeWhile (accepts Word) ?s2 # [body], [])"
    by (rule rmatch_greedy) (simp only: w, simp add: assms(3))
  then have 2: "rmatch ?R2 ?s2 = Some ([ws, body], [])"
    by (simp only: w)
  have "rmatch (lit ''> <'' @ ?R2) (drop (length (takeWhile (accepts Digit) ?s1)) ?s1)
          = Some ([ws, body], [])"
    using rmatch_lit [of "''> <''" ?R2 ?s2] 2 by (simp only: d) simp
  then have "rmatch (Cap (Plus Digit) # lit ''> <'' @ ?R2) ?s1
          = Some (takeWhile (accepts Digit) ?s1 # [ws, body], [])"
    by (rule rmatch_greedy) (simp only: d, simp add: assms(1))
  then have 1: "rmatch ?R1 ?s1 = Some ([ds, ws, body], [])"
    by (simp only: d)
  have "rmatch (lit ''** <'' @ ?R1) (''** <'' @ ?s1) = Some ([ds, ws, body], [])"
    using rmatch_lit [of "''** <''" ?R1 ?s1] 1 by simp
  then show ?thesis by (simp add: r_message_def message_line_def)
qed

lemma r_message_sound:
  assumes "rmatch r_message s = Some (gs, r)"
  shows "\<exists>ds ws body. s = message_line ds ws body @ r \<and> gs = [ds, ws, body]
           \<and> (r = [] \<or> r = [newline])
           \<and> ds \<noteq> [] \<and> list_all is_digit ds \<and> ws \<noteq> [] \<and> list_all is_word ws
           \<and> newline \<notin> set body"
proof -
  let ?R2 = "Cap (Plus Word) # lit ''> '' @ [Cap (Star Dot), Eol]"
  from assms have "rmatch (lit ''** <'' @ Cap (Plus Digit) # lit ''> <'' @ ?R2) s = Some (gs, r)"
    by (simp add: r_message_def)
  from rmatch_lit_sound [OF this] obtain s1 where s1: "s = ''** <'' @ s1"
    and m1: "rmatch (Cap (Plus Digit) # lit ''> <'' @ ?R2) s1 = Some (gs, r)" by blast
  from rmatch_plus_sound [OF m1] obtain ds s2 gs2 where ds: "s1 = ds @ s2" "ds \<noteq> []"
    "list_all (accepts Digit) ds" "gs = ds # gs2"
    and m2: "rmatch (lit ''> <'' @ ?R2) s2 = Some (gs2, r)" by blast
  from rmatch_lit_sound [OF m2] obtain s3 where s3: "s2 = ''> <'' @ s3"
    and m3: "rmatch ?R2 s3 = Some (gs2, r)" by blast
  from rmatch_plus_sound [OF m3] obtain ws s4 gs4 where ws: "s3 = ws @ s4" "ws \<noteq> []"
    "list_all (accepts Word) ws" "gs2 = ws # gs4"
    and m4: "rmatch (lit ''> '' @ [Cap (Star Dot), Eol]) s4 = Some (gs4, r)" by blast
  from rmatch_lit_sound [OF m4] obtain s5 where s5: "s4 = ''> '' @ s5"
    and m5: "rmatch [Cap (Star Dot), Eol] s5 = Some (gs4, r)" by blast
  from rmatch_star_sound [OF m5] obtain body s6 gs6 where body: "s5 = body @ s6"
    "list_all (accepts Dot) body" "gs4 = body # gs6"
    and m6: "rmatch [Eol] s6 = Some (gs6, r)" by blast
  from rmatch_eol [OF m6] have e: "s6 = [] \<or> s6 = [newline]" "gs6 = []" "r = s6" by auto
  have "s = message_line ds ws body @ r"
    using s1 ds(1) s3 ws(1) s5 body(1) e(3) by (simp add: message_line_def)
  moreover have "gs = [ds, ws, body]" using ds(4) ws(4) body(3) e(2) by simp
  moreover have "list_all is_digit ds" "list_all is_word ws" "newline \<notin> set body"
    using ds(3) ws(3) body(2) by (auto simp: list_all_iff)
  ultimately show ?thesis using e(1) e(3) ds(2) ws(2) by blast
qed

subsection \<open>The message loop and expect\<close>

lemma messages_consumed: "messages (consumed i n ds j) = messages (ds j)"
  by (simp add: consumed_def)

lemma read_event_drivers:
  assumes "read_event i tmo w = (r, w')"
  shows "(\<exists>n. drivers w' = consumed i n (drivers w))
       \<or> (r = Inr () \<and> (\<exists>n line. re_match r_message line \<noteq> None
             \<and> drivers w' = (consumed i n (drivers w))
                  (i := (consumed i n (drivers w) i)\<lparr>messages := messages (drivers w i) @ [line]\<rparr>)))"
    and "r \<noteq> Inr () \<Longrightarrow> \<exists>n. drivers w' = consumed i n (drivers w)"
proof -
  obtain r1 w1 where l: "read_line i tmo w = (r1, w1)" by fastforce
  then have "read_line_loop i (clock w + tmo) [] w = (r1, w1)" by (simp add: read_line_def)
  from read_line_loop_drivers [OF this] obtain n where d: "drivers w1 = consumed i n (drivers w)"
    by blast
  show "(\<exists>n. drivers w' = consumed i n (drivers w))
       \<or> (r = Inr () \<and> (\<exists>n line. re_match r_message line \<noteq> None
             \<and> drivers w' = (consumed i n (drivers w))
                  (i := (consumed i n (drivers w) i)\<lparr>messages := messages (drivers w i) @ [line]\<rparr>)))"
  proof (cases r1)
    case (Inl e)
    with assms l d show ?thesis by (auto simp: read_event_def)
  next
    case (Inr line)
    show ?thesis
    proof (cases "re_match r_message line")
      case None
      with assms l d Inr show ?thesis by (auto simp: read_event_def)
    next
      case (Some gs)
      with assms l Inr have "r = Inr ()"
        and "drivers w' = (drivers w1)(i := (drivers w1 i)\<lparr>messages := messages (drivers w1 i) @ [line]\<rparr>)"
        by (auto simp: read_event_def upd_driver_def)
      with d Some show ?thesis by (auto simp: messages_consumed)
    qed
  qed
  show "\<exists>n. drivers w' = consumed i n (drivers w)" if "r \<noteq> Inr ()"
    using that assms l d by (auto simp: read_event_def split: sum.splits option.splits)
qed

lemma read_message_loop_unfold:
  "read_message_loop i end_time w =
     (case messages (drivers w i) of
        m # ms \<Rightarrow> (Inr m, upd_driver i (\<lambda>d. d\<lparr>messages := ms\<rparr>) w)
      | [] \<Rightarrow>
          (case read_event i (max 0 (end_time - clock w)) w of
             (Inl e, w') \<Rightarrow> (Inl e, w')
           | (Inr u, w') \<Rightarrow> read_message_loop i end_time w'))"
  by (subst read_message_loop.simps) (simp add: Let_def split: list.splits)

lemma read_message_loop_induct [case_names step]:
  assumes "\<And>w. (\<And>u w1. messages (drivers w i) = [] \<Longrightarrow>
                     read_event i (max 0 (end_time - clock w)) w = (Inr u, w1) \<Longrightarrow> P w1)
      \<Longrightarrow> P w"
  shows "P w"
proof -
  have "i' = i \<Longrightarrow> e' = end_time \<Longrightarrow> P w" for i' e'
  proof (induction i' e' w rule: read_message_loop.induct)
    case (1 i' e' w)
    show ?case
    proof (rule assms)
      fix u w1
      assume "messages (drivers w i) = []"
        and "read_event i (max 0 (end_time - clock w)) w = (Inr u, w1)"
      with 1 show "P w1" by simp
    qed
  qed
  then show ?thesis by simp
qed

lemma read_message_loop_error:
  "read_message_loop i end_time w = (Inl err, w') \<Longrightarrow>
     messages (drivers w i) = [] \<and> (\<exists>n. drivers w' = consumed i n (drivers w))"
proof (induction w rule: read_message_loop_induct [where i = i and end_time = end_time])
  case (step w)
  from step.prems have empty: "messages (drivers w i) = []"
    by (cases "messages (drivers w i)") (auto simp: read_message_loop_unfold [of i end_time w])
  obtain r1 w1 where e: "read_event i (max 0 (end_time - clock w)) w = (r1, w1)" by fastforce
  show ?case
  proof (cases r1)
    case (Inl e1)
    with step.prems empty e have "w' = w1"
      by (simp add: read_message_loop_unfold [of i end_time w])
    with read_event_drivers(2) [OF e] Inl empty show ?thesis by auto
  next
    case (Inr u)
    with step.prems empty e have "read_message_loop i end_time w1 = (Inl err, w')"
      by (simp add: read_message_loop_unfold [of i end_time w])
    from step.IH [OF empty e [unfolded Inr] this]
    obtain m where m1: "messages (drivers w1 i) = []" and d: "drivers w' = consumed i m (drivers w1)"
      by blast
    from read_event_drivers(1) [OF e] m1 obtain n where "drivers w1 = consumed i n (drivers w)"
      by (auto simp: messages_consumed)
    with d empty show ?thesis by (auto simp: consumed_consumed)
  qed
qed

lemma read_message_loop_pop:
  "messages (drivers w i) = m # ms \<Longrightarrow>
     read_message_loop i end_time w = (Inr m, upd_driver i (\<lambda>d. d\<lparr>messages := ms\<rparr>) w)"
  by (simp add: read_message_loop_unfold [of i end_time w])

lemma read_message_loop_first:
  "messages (drivers w i) = [] \<Longrightarrow> read_message_loop i end_time w = (Inr m, w') \<Longrightarrow>
     messages (drivers w' i) = [] \<and> re_match r_message m \<noteq> None"
proof (induction w rule: read_message_loop_induct [where i = i and end_time = end_time])
  case (step w)
  obtain r1 w1 where e: "read_event i (max 0 (end_time - clock w)) w = (r1, w1)" by fastforce
  with step.prems obtain u where r1: "r1 = Inr u"
    by (cases r1) (auto simp: read_message_loop_unfold [of i end_time w])
  with step.prems e have l: "read_message_loop i end_time w1 = (Inr m, w')"
    by (simp add: read_message_loop_unfold [of i end_time w])
  show ?case
  proof (cases "messages (drivers w1 i)")
    case Nil
    from step.IH [OF step.prems(1) e [unfolded r1] Nil l] show ?thesis .
  next
    case (Cons x xs)
    with read_event_drivers(1) [OF e] step.prems(1)
    have "xs = []" "re_match r_message x \<noteq> None"
      by (auto simp: messages_consumed)
    with l Cons show ?thesis
      by (auto simp: read_message_loop_unfold [of i end_time w1] upd_driver_def)
  qed
qed

lemma read_nonblocking_result:
  assumes "read_nonblocking sz b now p = (r, now', p')"
  shows "\<exists>n. p' = p\<lparr>pending := drop n (pending p)\<rparr>
            \<and> (case r of Inl e \<Rightarrow> n = 0 | Inr c \<Rightarrow> c = map snd (take n (pending p)))"
proof (cases "pending p")
  case Nil
  with assms have "p' = p\<lparr>pending := drop 0 (pending p)\<rparr>" "\<exists>e. r = Inl e"
    by (auto simp: read_nonblocking_def split: if_splits)
  then show ?thesis by (auto simp del: drop_0)
next
  case (Cons x out)
  obtain t ch where x: "x = (t, ch)" by (cases x)
  show ?thesis
  proof (cases "t \<le> now + max 0 b")
    case False
    with assms Cons x have "p' = p\<lparr>pending := drop 0 (pending p)\<rparr>" "\<exists>e. r = Inl e"
      by (auto simp: read_nonblocking_def)
    then show ?thesis by auto
  next
    case True
    with assms Cons x show ?thesis
      by (auto simp: read_nonblocking_def Let_def)
  qed
qed

lemma buffered_0: "buffered 0 p = p\<lparr>pmatch := None\<rparr>"
  by (simp add: buffered_def)

lemma expect_loop_timeout:
  "expect_loop pat end_time now p = (Inl TIMEOUT, now', p') \<Longrightarrow> \<exists>n. p' = buffered n p"
proof (induction pat end_time now p rule: expect_loop.induct)
  case (1 pat end_time now p)
  from "1.prems" have none: "re_search pat (buffer p) = None"
    by (cases "re_search pat (buffer p)") (auto simp: expect_loop.simps [of pat end_time now p])
  show ?case
  proof (cases "end_time < now")
    case True
    with "1.prems" none have "p' = buffered 0 p"
      by (simp add: expect_loop.simps [of pat end_time now p] buffered_0)
    then show ?thesis by blast
  next
    case False
    obtain r1 now1 p1 where rn: "read_nonblocking maxread (end_time - now) now p = (r1, now1, p1)"
      by (metis prod_cases3)
    from read_nonblocking_result [OF rn] obtain n
      where p1: "p1 = p\<lparr>pending := drop n (pending p)\<rparr>"
        and rr: "case r1 of Inl e \<Rightarrow> n = 0 | Inr c \<Rightarrow> c = map snd (take n (pending p))"
      by blast
    show ?thesis
    proof (cases r1)
      case (Inl e)
      with "1.prems" none False rn have "e = TIMEOUT" "p' = p1\<lparr>buffer := buffer p1, pmatch := None\<rparr>"
        by (auto simp: expect_loop.simps [of pat end_time now p] split: if_splits)
      with p1 rr Inl have "p' = buffered 0 p" by (simp add: buffered_def)
      then show ?thesis by blast
    next
      case (Inr c)
      with "1.prems" none False rn
      have l: "expect_loop pat end_time now1 (p1\<lparr>buffer := buffer p1 @ c\<rparr>) = (Inl TIMEOUT, now', p')"
        by (simp add: expect_loop.simps [of pat end_time now p])
      from "1.IH" [OF none False rn [symmetric] Inr refl l]
      obtain m where "p' = buffered m (p1\<lparr>buffer := buffer p1 @ c\<rparr>)" by blast
      moreover have "map snd (take n (pending p)) @ map snd (take m (drop n (pending p)))
                       = map snd (take (n + m) (pending p))"
        by (simp add: take_add)
      moreover have "drop (m + n) (pending p) = drop (n + m) (pending p)"
        by (simp add: add.commute)
      ultimately have "p' = buffered (n + m) p"
        using p1 rr Inr by (simp add: buffered_def)
      then show ?thesis by blast
    qed
  qed
qed

lemma call_process_drivers:
  assumes "call_process i c f w = (r, w')"
  shows "drivers w' = (drivers w)(i := (drivers w i)\<lparr>process := process (drivers w' i)\<rparr>)"
proof (cases "process (drivers w i)")
  case None
  with assms have "w' = w" by (simp add: call_process_def)
  then show ?thesis by (simp add: process_same)
next
  case (Some p)
  with assms show ?thesis
    by (auto simp: call_process_def upd_driver_def record_call_def split: prod.splits)
qed

lemma expect_timeout_drivers:
  assumes "expect i pat w = (Inl TIMEOUT, w')"
  shows "\<exists>n. drivers w' =
           (drivers w)(i := (drivers w i)\<lparr>process := map_option (buffered n) (process (drivers w i))\<rparr>)"
proof (cases "process (drivers w i)")
  case None
  with assms show ?thesis by (simp add: expect_def call_process_def)
next
  case (Some p)
  obtain r now' p' where e: "expect_loop pat (clock w + timeout p) (clock w) p = (r, now', p')"
    by (metis prod_cases3)
  with assms Some have r: "r = Inl TIMEOUT"
    and w': "drivers w' = (drivers w)(i := (drivers w i)\<lparr>process := Some p'\<rparr>)"
    by (auto simp: expect_def call_process_def upd_driver_def record_call_def)
  from expect_loop_timeout [OF e [unfolded r]] obtain n where "p' = buffered n p" by blast
  with w' Some show ?thesis by auto
qed

lemma read_line_timeout:
  assumes "process (drivers w i) = Some p" "alive p"
    and "no_line_by (clock w + max 0 tmo) (pending p)"
  shows "fst (read_line i tmo w) = Inl TIMEOUT"
proof -
  have "max (clock w) (clock w + tmo) = clock w + max 0 tmo" by auto
  with read_line_loop_timeout [of w i p "clock w + tmo" "[]"] assms
  show ?thesis by (simp add: read_line_def)
qed

lemma read_event_timeout:
  assumes "process (drivers w i) = Some p" "alive p"
    and "no_line_by (clock w + max 0 tmo) (pending p)"
  shows "fst (read_event i tmo w) = Inl TIMEOUT"
  using read_line_timeout [OF assms]
  by (cases "read_line i tmo w") (auto simp: read_event_def)

lemma read_message_timeout:
  assumes "process (drivers w i) = Some p" "alive p"
    and "no_line_by (clock w + max 0 tmo) (pending p)" and "messages (drivers w i) = []"
  shows "fst (read_message i tmo w) = Inl TIMEOUT"
proof -
  have "no_line_by (clock w + max 0 (max 0 tmo)) (pending p)" using assms(3) by simp
  from read_event_timeout [OF assms(1,2) this] assms(4) show ?thesis
    by (cases "read_event i (max 0 tmo) w")
       (auto simp: read_message_def read_message_loop_unfold [of i "clock w + tmo" w])
qed

lemma expect_silent_timeout:
  assumes "process (drivers w i) = Some p" "alive p" "pending p = []"
    and "re_search pat (buffer p) = None"
  shows "fst (expect i pat w) = Inl TIMEOUT"
  using assms
  by (simp add: expect_def call_process_def read_nonblocking_def
                expect_loop.simps [of pat "clock w + timeout p" "clock w" p])

lemma upd_driver_twice:
  "upd_driver i (\<lambda>d. d\<lparr>messages := a\<rparr>) (upd_driver i (\<lambda>d. d\<lparr>messages := b\<rparr>) w)
     = upd_driver i (\<lambda>d. d\<lparr>messages := a\<rparr>) w"
  by (simp add: upd_driver_def)

subsection \<open>What an operation leaves unchanged\<close>

lemma bind_cases:
  assumes "bind m f w = (r, w')"
  obtains (fail) e where "m w = (Inl e, w')" "r = Inl e"
        | (ok) x w1 where "m w = (Inr x, w1)" "f x w1 = (r, w')"
  using assms by (auto simp: bind_def split: prod.splits sum.splits)

lemma keepsD: "keeps g m \<Longrightarrow> m w = (r, w') \<Longrightarrow> g (drivers w' j) = g (drivers w j)"
  by (auto simp: keeps_def dest: spec [where x = w])

lemma keeps_bind:
  assumes "keeps g m" "\<And>x. keeps g (f x)"
  shows "keeps g (bind m f)"
  unfolding keeps_def
proof (intro allI)
  fix w j
  obtain r w' where b: "bind m f w = (r, w')" by fastforce
  then show "g (drivers (snd (bind m f w)) j) = g (drivers w j)"
  proof (cases rule: bind_cases)
    case (fail e)
    with b keepsD [OF assms(1)] show ?thesis by simp
  next
    case (ok x w1)
    with b keepsD [OF assms(1)] keepsD [OF assms(2)] show ?thesis by simp
  qed
qed

lemma keeps_return: "keeps g (return x)"
  by (simp add: keeps_def return_def)

lemma keeps_lift: "keeps g (lift r)"
  by (simp add: keeps_def lift_def)

lemma keeps_match_group: "keeps g (match_group i n)"
  by (auto simp: keeps_def match_group_def split: option.splits)

lemma keeps_call_process:
  assumes "\<And>d q. g (d\<lparr>process := q\<rparr>) = g d"
  shows "keeps g (call_process i c f)"
  unfolding keeps_def
proof (intro allI)
  fix w j
  obtain r w' where c: "call_process i c f w = (r, w')" by fastforce
  from call_process_drivers [OF c]
  have "drivers w' j = (if j = i then (drivers w i)\<lparr>process := process (drivers w' i)\<rparr>
                        else drivers w j)"
    by (metis fun_upd_apply)
  then have "g (drivers w' j) = g (drivers w j)"
    by (simp add: assms)
  with c show "g (drivers (snd (call_process i c f w)) j) = g (drivers w j)" by simp
qed

lemma g_consumed: "(\<And>d q. g (d\<lparr>process := q\<rparr>) = g d) \<Longrightarrow> g (consumed i n ds j) = g (ds j)"
  by (simp add: consumed_def)

lemma keeps_read_line:
  assumes "\<And>d q. g (d\<lparr>process := q\<rparr>) = g d"
  shows "keeps g (read_line i tmo)"
  unfolding keeps_def
proof (intro allI)
  fix w j
  obtain r w' where c: "read_line_loop i (clock w + tmo) [] w = (r, w')" by fastforce
  from read_line_loop_drivers [OF c] assms have "g (drivers w' j) = g (drivers w j)"
    by (auto simp: g_consumed)
  with c show "g (drivers (snd (read_line i tmo w)) j) = g (drivers w j)"
    by (simp add: read_line_def)
qed

lemma keeps_read_event:
  assumes "\<And>d q. g (d\<lparr>process := q\<rparr>) = g d" "\<And>d q. g (d\<lparr>messages := q\<rparr>) = g d"
  shows "keeps g (read_event i tmo)"
  unfolding keeps_def
proof (intro allI)
  fix w j
  obtain r w' where c: "read_event i tmo w = (r, w')" by fastforce
  from read_event_drivers(1) [OF c] assms have "g (drivers w' j) = g (drivers w j)"
    by (auto simp: g_consumed)
  with c show "g (drivers (snd (read_event i tmo w)) j) = g (drivers w j)" by simp
qed

lemma read_message_loop_keeps:
  assumes "\<And>d q. g (d\<lparr>process := q\<rparr>) = g d" "\<And>d q. g (d\<lparr>messages := q\<rparr>) = g d"
  shows "g (drivers (snd (read_message_loop i end_time w)) j) = g (drivers w j)"
proof (induction w rule: read_message_loop_induct [where i = i and end_time = end_time])
  case (step w)
  show ?case
  proof (cases "messages (drivers w i)")
    case (Cons x xs)
    with assms(2) show ?thesis
      by (simp add: read_message_loop_unfold [of i end_time w] upd_driver_def)
  next
    case Nil
    obtain r1 w1 where e: "read_event i (max 0 (end_time - clock w)) w = (r1, w1)" by fastforce
    from keepsD [OF keeps_read_event [OF assms] e]
    have k: "g (drivers w1 j) = g (drivers w j)" .
    show ?thesis
    proof (cases r1)
      case (Inl err)
      with Nil e k show ?thesis by (simp add: read_message_loop_unfold [of i end_time w])
    next
      case (Inr u)
      with Nil e k step.IH [OF Nil e [unfolded Inr]] show ?thesis
        by (simp add: read_message_loop_unfold [of i end_time w])
    qed
  qed
qed

lemma keeps_read_message:
  assumes "\<And>d q. g (d\<lparr>process := q\<rparr>) = g d" "\<And>d q. g (d\<lparr>messages := q\<rparr>) = g d"
  shows "keeps g (read_message i tmo)"
  by (simp add: keeps_def read_message_def read_message_loop_keeps [OF assms])

lemma keeps_send_message: "(\<And>d q. g (d\<lparr>process := q\<rparr>) = g d) \<Longrightarrow> keeps g (send_message i s)"
  by (simp add: send_message_def keeps_call_process)

lemma keeps_expect: "(\<And>d q. g (d\<lparr>process := q\<rparr>) = g d) \<Longrightarrow> keeps g (expect i pat)"
  by (simp add: expect_def keeps_call_process)

lemma keeps_set_debug: "(\<And>d q. g (d\<lparr>process := q\<rparr>) = g d) \<Longrightarrow> keeps g (set_debug i en)"
  by (auto simp: keeps_def set_debug_def Let_def upd_driver_def record_call_def split: option.splits)

lemma keeps_stop:
  assumes "\<And>d q. g (d\<lparr>process := q\<rparr>) = g d"
  shows "keeps g (stop i)"
  unfolding keeps_def
proof (intro allI)
  fix w j
  show "g (drivers (snd (stop i w)) j) = g (drivers w j)"
  proof (cases "process (drivers w i)")
    case None
    then show ?thesis by (simp add: stop_def)
  next
    case (Some p)
    have "keeps g (call_process i Terminate (\<lambda>now p. (Inr (), now, terminate p)))"
      by (rule keeps_call_process) (rule assms)
    with Some show ?thesis by (simp add: stop_def keeps_def)
  qed
qed

lemma keeps_upd:
  "(\<And>d. g (h d) = g d) \<Longrightarrow> keeps g (\<lambda>w. (Inr x, upd_driver i h w))"
  by (simp add: keeps_def upd_driver_def)

lemma keeps_spawn: "keeps g (spawn i command args environ tmo)"
  by (auto simp: keeps_def spawn_def record_call_def split: list.splits)

lemma keeps_connect:
  assumes "\<And>d q. g (d\<lparr>process := q\<rparr>) = g d" "\<And>d q. g (d\<lparr>env := q\<rparr>) = g d"
  shows "keeps g (connect i room server)"
  unfolding keeps_def
proof (intro allI)
  fix w j
  let ?w1 = "upd_driver i (\<lambda>d. d\<lparr>env := [(''LD_LIBRARY_PATH'',
                                   np1sec_path d @ '':'' @ ld_library_path d)]\<rparr>) w"
  have w1: "g (drivers ?w1 j) = g (drivers w j)"
    using assms(2) by (simp add: upd_driver_def)
  have k: "keeps g (bind (spawn i command args environ 3600)
             (\<lambda>p. bind (\<lambda>w2. (Inr (), upd_driver i
                                  (\<lambda>d. d\<lparr>process := Some (p\<lparr>logfile := None\<rparr>)\<rparr>) w2))
             (\<lambda>_. bind (expect i connected_pattern)
             (\<lambda>_. return ()))))" for command args environ
    by (intro keeps_bind keeps_spawn keeps_upd keeps_expect keeps_return assms(1))
  show "g (drivers (snd (connect i room server w)) j) = g (drivers w j)"
    using w1 k [unfolded keeps_def, rule_format, of _ _ _ ?w1 j]
    by (simp add: connect_def Let_def)
qed

lemma keeps_create: "(\<And>d q. g (d\<lparr>process := q\<rparr>) = g d) \<Longrightarrow> keeps g (create_conversation i)"
  unfolding create_conversation_def
  by (intro keeps_bind keeps_send_message keeps_expect keeps_match_group keeps_lift)

lemma keeps_invite:
  assumes "\<And>d q. g (d\<lparr>process := q\<rparr>) = g d"
  shows "keeps g (invite_conversation i u)"
proof -
  have "keeps g (bind (expect i pat) (\<lambda>_. return ()))" for pat
    by (intro keeps_bind keeps_expect keeps_return assms)
  then have "keeps g (\<lambda>w. bind (expect i (invited_pattern (username (drivers w i)) u))
                             (\<lambda>_. return ()) w)"
    by (simp add: keeps_def)
  then show ?thesis
    unfolding invite_conversation_def
    by (intro keeps_bind keeps_send_message assms)
qed



subsection \<open>The calls an operation makes\<close>

lemma performsD:
  assumes "performs S m" "m w = (r, w')"
  obtains n where "n \<le> length S" "map snd (trace w') = map snd (trace w) @ take n S"
    "\<And>x. r = Inr x \<Longrightarrow> n = length S"
proof -
  from assms(1) obtain n where "n \<le> length S"
    "map snd (trace (snd (m w))) = map snd (trace w) @ take n S"
    "\<forall>x. fst (m w) = Inr x \<longrightarrow> n = length S"
    unfolding performs_def by blast
  with assms(2) that show ?thesis by simp
qed

lemma performs_bind:
  assumes "performs S1 m" "\<And>x. performs S2 (f x)"
  shows "performs (S1 @ S2) (bind m f)"
  unfolding performs_def
proof (intro allI)
  fix w
  obtain r w' where b: "bind m f w = (r, w')" by fastforce
  from b have "\<exists>n\<le>length (S1 @ S2). map snd (trace w') = map snd (trace w) @ take n (S1 @ S2)
                 \<and> (\<forall>x. r = Inr x \<longrightarrow> n = length (S1 @ S2))"
  proof (cases rule: bind_cases)
    case (fail e)
    from performsD [OF assms(1) fail(1)] obtain n where "n \<le> length S1"
      "map snd (trace w') = map snd (trace w) @ take n S1" by blast
    with fail(2) show ?thesis by (intro exI [of _ n]) simp
  next
    case (ok x w1)
    from performsD [OF assms(1) ok(1)] obtain n1 where n1: "n1 = length S1"
      "map snd (trace w1) = map snd (trace w) @ take n1 S1" by blast
    from performsD [OF assms(2) ok(2)] obtain n2 where n2: "n2 \<le> length S2"
      "map snd (trace w') = map snd (trace w1) @ take n2 S2"
      "\<And>y. r = Inr y \<Longrightarrow> n2 = length S2" by blast
    from n1 n2 show ?thesis by (intro exI [of _ "length S1 + n2"]) auto
  qed
  with b show "\<exists>n\<le>length (S1 @ S2).
          map snd (trace (snd (bind m f w))) = map snd (trace w) @ take n (S1 @ S2)
          \<and> (\<forall>x. fst (bind m f w) = Inr x \<longrightarrow> n = length (S1 @ S2))"
    by simp
qed

lemma performs_silent:
  assumes "\<And>w. trace (snd (m w)) = trace w"
  shows "performs [] m"
  by (simp add: performs_def assms)

lemma performs_call_process: "performs [(i, c)] (call_process i c f)"
  unfolding performs_def
proof (intro allI)
  fix w
  show "\<exists>n\<le>length [(i, c)].
          map snd (trace (snd (call_process i c f w))) = map snd (trace w) @ take n [(i, c)]
          \<and> (\<forall>x. fst (call_process i c f w) = Inr x \<longrightarrow> n = length [(i, c)])"
  proof (cases "process (drivers w i)")
    case None
    then show ?thesis by (intro exI [of _ 0]) (simp add: call_process_def)
  next
    case (Some p)
    then show ?thesis
      by (intro exI [of _ 1])
         (simp add: call_process_def upd_driver_def record_call_def split: prod.splits)
  qed
qed

lemma performs_send_message: "performs [(i, Sendline s)] (send_message i s)"
  by (simp add: send_message_def performs_call_process)

lemma performs_expect: "performs [(i, Expect pat)] (expect i pat)"
  by (simp add: expect_def performs_call_process)

lemma performs_select:
  "performs [(i, Sendline (''/select '' @ format_id cid)), (i, Expect selecting_pattern)]
     (select_conversation i cid)"
proof -
  have "performs ([(i, Sendline (''/select '' @ format_id cid))]
                  @ ([(i, Expect selecting_pattern)] @ ([] @ ([] @ ([] @ [])))))
          (select_conversation i cid)"
    unfolding select_conversation_def
    by (intro performs_bind performs_send_message performs_expect performs_silent)
       (auto simp: match_group_def lift_def return_def upd_driver_def split: option.splits)
  then show ?thesis by simp
qed



subsection \<open>A successful expect\<close>

lemma expect_loop_match:
  "expect_loop pat end_time now p = (Inr k, now', p') \<Longrightarrow>
     \<exists>n before gs rest.
        re_search pat (buffer p @ map snd (take n (pending p))) = Some (before, gs, rest)
        \<and> p' = p\<lparr>pending := drop n (pending p), buffer := rest, pmatch := Some gs\<rparr>"
proof (induction pat end_time now p rule: expect_loop.induct)
  case (1 pat end_time now p)
  show ?case
  proof (cases "re_search pat (buffer p)")
    case (Some x)
    obtain before gs rest where x: "x = (before, gs, rest)" by (cases x)
    with "1.prems" Some
    have "p' = p\<lparr>pending := drop 0 (pending p), buffer := rest, pmatch := Some gs\<rparr>"
      by (simp add: expect_loop.simps [of pat end_time now p])
    moreover from Some x
    have "re_search pat (buffer p @ map snd (take 0 (pending p))) = Some (before, gs, rest)"
      by simp
    ultimately show ?thesis by blast
  next
    case None
    with "1.prems" have False: "\<not> end_time < now"
      by (auto simp: expect_loop.simps [of pat end_time now p] split: if_splits)
    obtain r1 now1 p1 where rn: "read_nonblocking maxread (end_time - now) now p = (r1, now1, p1)"
      by (metis prod_cases3)
    with "1.prems" None False obtain c where Inr: "r1 = Inr c"
      by (cases r1) (auto simp: expect_loop.simps [of pat end_time now p])
    from read_nonblocking_result [OF rn] Inr obtain n
      where p1: "p1 = p\<lparr>pending := drop n (pending p)\<rparr>"
        and c: "c = map snd (take n (pending p))"
      by auto
    from "1.prems" None False rn Inr
    have l: "expect_loop pat end_time now1 (p1\<lparr>buffer := buffer p1 @ c\<rparr>) = (Inr k, now', p')"
      by (simp add: expect_loop.simps [of pat end_time now p])
    from "1.IH" [OF None False rn [symmetric] Inr refl l]
    obtain m before gs rest
      where s: "re_search pat (buffer (p1\<lparr>buffer := buffer p1 @ c\<rparr>)
                  @ map snd (take m (pending (p1\<lparr>buffer := buffer p1 @ c\<rparr>))))
                = Some (before, gs, rest)"
        and p': "p' = (p1\<lparr>buffer := buffer p1 @ c\<rparr>)
                  \<lparr>pending := drop m (pending (p1\<lparr>buffer := buffer p1 @ c\<rparr>)),
                    buffer := rest, pmatch := Some gs\<rparr>"
      by blast
    have e: "map snd (take n (pending p)) @ map snd (take m (drop n (pending p)))
               = map snd (take (n + m) (pending p))"
      by (simp add: take_add)
    have d: "drop (m + n) (pending p) = drop (n + m) (pending p)"
      by (simp add: add.commute)
    from s p1 c e have "re_search pat (buffer p @ map snd (take (n + m) (pending p)))
                          = Some (before, gs, rest)"
      by simp
    moreover from p' p1 d
    have "p' = p\<lparr>pending := drop (n + m) (pending p), buffer := rest, pmatch := Some gs\<rparr>"
      by simp
    ultimately show ?thesis by blast
  qed
qed

lemma call_process_Some:
  assumes "process (drivers w i) = Some p" "call_process i c f w = (r, w')"
  shows "\<exists>now' p'. f (clock w) p = (r, now', p') \<and> process (drivers w' i) = Some p'"
  using assms
  by (auto simp: call_process_def upd_driver_def record_call_def split: prod.splits)

lemma call_process_ok:
  assumes "call_process i c f w = (Inr x, w')"
  shows "\<exists>p now' p'. process (drivers w i) = Some p \<and> f (clock w) p = (Inr x, now', p')
            \<and> process (drivers w' i) = Some p'"
proof (cases "process (drivers w i)")
  case None
  with assms show ?thesis by (simp add: call_process_def)
next
  case (Some p)
  from call_process_Some [OF Some assms] Some show ?thesis by blast
qed

lemma send_message_ok:
  assumes "send_message i s w = (Inr k, w')"
  shows "\<exists>p. process (drivers w i) = Some p
            \<and> process (drivers w' i) = Some (p\<lparr>sent := sent p @ [s]\<rparr>)"
  using call_process_ok [OF assms [unfolded send_message_def]]
  by (auto simp: sendline_def)

lemma expect_ok:
  assumes "expect i pat w = (Inr k, w')"
  shows "\<exists>p n before gs rest. process (drivers w i) = Some p
            \<and> re_search pat (buffer p @ map snd (take n (pending p))) = Some (before, gs, rest)
            \<and> process (drivers w' i)
                 = Some (p\<lparr>pending := drop n (pending p), buffer := rest, pmatch := Some gs\<rparr>)"
proof -
  from call_process_ok [OF assms [unfolded expect_def]] obtain p now' p'
    where p: "process (drivers w i) = Some p"
      and e: "expect_loop pat (clock w + timeout p) (clock w) p = (Inr k, now', p')"
      and p': "process (drivers w' i) = Some p'"
    by blast
  from expect_loop_match [OF e] p p' show ?thesis by blast
qed

lemma re_search_sound:
  "re_search pat s = Some (b, gs, r) \<Longrightarrow>
     \<exists>s' gs'. s = b @ s' \<and> rmatch pat s' = Some (gs', r)
              \<and> gs = take (length s' - length r) s' # gs'"
proof (induction s arbitrary: b gs r)
  case Nil
  then show ?case by (auto split: option.splits)
next
  case (Cons c cs)
  show ?case
  proof (cases "rmatch pat (c # cs)")
    case (Some x)
    with Cons.prems show ?thesis by (cases x) auto
  next
    case None
    with Cons.prems obtain b' where b: "b = c # b'" and "re_search pat cs = Some (b', gs, r)"
      by (auto split: option.splits)
    from Cons.IH [OF this(2)] b show ?thesis by auto
  qed
qed

lemma rmatch_suffix: "rmatch pat s = Some (gs, r) \<Longrightarrow> \<exists>x. s = x @ r"
proof (induction pat arbitrary: s gs r)
  case Nil
  then show ?case by simp
next
  case (Cons it its)
  define f where "f = (\<lambda>n. case rmatch its (drop n s) of None \<Rightarrow> None
             | Some (gs', r') \<Rightarrow> Some (caps it (take n s) @ gs', r'))"
  from Cons.prems have "first_some (map f (lens it s)) = Some (gs, r)"
    unfolding f_def by (simp only: rmatch.simps)
  then obtain n where "f n = Some (gs, r)" using first_some_map_Some by fast
  then obtain gs' where "rmatch its (drop n s) = Some (gs', r)"
    by (auto simp: f_def split: option.splits)
  from Cons.IH [OF this] obtain x where "drop n s = x @ r" by blast
  then have "s = (take n s @ x) @ r" by (metis append_assoc append_take_drop_id)
  then show ?case by blast
qed

lemma take_matched: "take (length (x @ r) - length r) (x @ r) = x"
  by simp

lemma selecting_groups:
  assumes "re_search selecting_pattern s = Some (b, gs, r)"
  shows "\<exists>ds. gs = [''** Selecting conversation '' @ ds, ds] \<and> ds \<noteq> [] \<and> list_all is_digit ds
            \<and> s = b @ ''** Selecting conversation '' @ ds @ r"
proof -
  let ?L = "''** Selecting conversation ''"
  from re_search_sound [OF assms] obtain s' gs' where s: "s = b @ s'"
    and m: "rmatch (lit ?L @ [Cap (Plus Digit)]) s' = Some (gs', r)"
    and gs: "gs = take (length s' - length r) s' # gs'"
    by (auto simp: selecting_pattern_def)
  from rmatch_lit_sound [OF m] obtain s2 where s2: "s' = ?L @ s2"
    and m2: "rmatch [Cap (Plus Digit)] s2 = Some (gs', r)" by blast
  from rmatch_plus_sound [OF m2] obtain ds s3 gs3 where ds: "s2 = ds @ s3" "ds \<noteq> []"
    "list_all (accepts Digit) ds" "gs' = ds # gs3" and m3: "rmatch [] s3 = Some (gs3, r)"
    by blast
  from m3 have e: "gs3 = []" "r = s3" by simp_all
  have s'': "s' = (?L @ ds) @ r" using s2 ds(1) e(2) by simp
  have "take (length s' - length r) s' = ?L @ ds"
    unfolding s'' by (rule take_matched)
  moreover have "list_all is_digit ds" using ds(3) by (simp add: list_all_iff)
  ultimately show ?thesis using gs ds e s s2 by auto
qed

lemma py_int_digits: "ds \<noteq> [] \<Longrightarrow> list_all is_digit ds \<Longrightarrow> \<exists>n. py_int ds = Inr n"
  by (simp add: py_int_def)

lemma bind_ok:
  "bind m f w = (Inr v, w') \<Longrightarrow> \<exists>x w1. m w = (Inr x, w1) \<and> f x w1 = (Inr v, w')"
  by (auto elim: bind_cases)

lemma select_effect:
  assumes "select_conversation i cid w = (r, w')"
  shows "(\<exists>n\<le>2. map snd (trace w') = map snd (trace w)
                   @ take n [(i, Sendline (''/select '' @ format_id cid)),
                             (i, Expect selecting_pattern)]
              \<and> (\<forall>v. r = Inr v \<longrightarrow> n = 2))
       \<and> (\<forall>v. r = Inr v \<longrightarrow>
             conversation_id (drivers w' i) = v
             \<and> (\<exists>p0 p ds n. process (drivers w i) = Some p0 \<and> process (drivers w' i) = Some p
                   \<and> sent p = sent p0 @ [''/select '' @ format_id cid]
                   \<and> pmatch p = Some [''** Selecting conversation '' @ ds, ds]
                   \<and> ds \<noteq> [] \<and> list_all is_digit ds \<and> py_int ds = Inr n \<and> v = Some n))
       \<and> (\<forall>e. r = Inl e \<longrightarrow> conversation_id (drivers w' i) = conversation_id (drivers w i))
       \<and> (\<forall>j. j \<noteq> i \<longrightarrow> conversation_id (drivers w' j) = conversation_id (drivers w j))"
proof -
  let ?msg = "''/select '' @ format_id cid"
  from performsD [OF performs_select assms]
  have tr: "\<exists>n\<le>2. map snd (trace w') = map snd (trace w)
                   @ take n [(i, Sendline ?msg), (i, Expect selecting_pattern)]
              \<and> (\<forall>v. r = Inr v \<longrightarrow> n = 2)"
    by (metis length_Cons list.size(3) numeral_2_eq_2)
  have ok: "conversation_id (drivers w' i) = v
             \<and> (\<exists>p0 p ds n. process (drivers w i) = Some p0 \<and> process (drivers w' i) = Some p
                   \<and> sent p = sent p0 @ [?msg]
                   \<and> pmatch p = Some [''** Selecting conversation '' @ ds, ds]
                   \<and> ds \<noteq> [] \<and> list_all is_digit ds \<and> py_int ds = Inr n \<and> v = Some n)"
    if "r = Inr v" for v
  proof -
    from assms that obtain k w1 where 1: "send_message i ?msg w = (Inr k, w1)"
      and r1: "bind (expect i selecting_pattern)
                 (\<lambda>_. bind (match_group i 1)
                 (\<lambda>g. bind (lift (py_int g))
                 (\<lambda>n. bind (\<lambda>w. (Inr (), upd_driver i (\<lambda>d. d\<lparr>conversation_id := Some n\<rparr>) w))
                 (\<lambda>_ w. return (conversation_id (drivers w i)) w)))) w1 = (Inr v, w')"
      unfolding select_conversation_def by (blast dest: bind_ok)
    from r1 obtain k2 w2 where 2: "expect i selecting_pattern w1 = (Inr k2, w2)"
      and r2: "bind (match_group i 1)
                 (\<lambda>g. bind (lift (py_int g))
                 (\<lambda>n. bind (\<lambda>w. (Inr (), upd_driver i (\<lambda>d. d\<lparr>conversation_id := Some n\<rparr>) w))
                 (\<lambda>_ w. return (conversation_id (drivers w i)) w))) w2 = (Inr v, w')"
      by (blast dest: bind_ok)
    from bind_ok [OF r2] obtain g w3 where 3: "match_group i 1 w2 = (Inr g, w3)"
      and r3: "bind (lift (py_int g))
                 (\<lambda>n. bind (\<lambda>w. (Inr (), upd_driver i (\<lambda>d. d\<lparr>conversation_id := Some n\<rparr>) w))
                 (\<lambda>_ w. return (conversation_id (drivers w i)) w)) w3 = (Inr v, w')"
      by blast
    from 3 have w3: "w3 = w2"
      by (auto simp: match_group_def split: option.splits if_splits)
    from bind_ok [OF r3] obtain n w4 where 4: "lift (py_int g) w3 = (Inr n, w4)"
      and r4: "bind (\<lambda>w. (Inr (), upd_driver i (\<lambda>d. d\<lparr>conversation_id := Some n\<rparr>) w))
                 (\<lambda>_ w. return (conversation_id (drivers w i)) w) w4 = (Inr v, w')"
      by blast
    from 4 w3 have 4: "py_int g = Inr n" and w4: "w4 = w2" by (simp_all add: lift_def)
    from r4 w4 have 5: "w' = upd_driver i (\<lambda>d. d\<lparr>conversation_id := Some n\<rparr>) w2"
      and 6: "v = conversation_id (drivers w' i)"
      by (auto simp: bind_def return_def)
    note 3 = 3 [unfolded w3]
    from send_message_ok [OF 1] obtain p0 where p0: "process (drivers w i) = Some p0"
      and p1: "process (drivers w1 i) = Some (p0\<lparr>sent := sent p0 @ [?msg]\<rparr>)" by blast
    from expect_ok [OF 2] p1 obtain m before gs rest
      where s: "re_search selecting_pattern
                  (buffer p0 @ map snd (take m (pending p0))) = Some (before, gs, rest)"
        and p2: "process (drivers w2 i)
                   = Some (p0\<lparr>sent := sent p0 @ [?msg], pending := drop m (pending p0),
                              buffer := rest, pmatch := Some gs\<rparr>)"
      by auto
    from selecting_groups [OF s] obtain ds
      where ds: "gs = [''** Selecting conversation '' @ ds, ds]" "ds \<noteq> []" "list_all is_digit ds"
      by blast
    from 3 p2 ds(1) have g: "g = ds" by (simp add: match_group_def)
    from 5 p2 have p': "process (drivers w' i)
                   = Some (p0\<lparr>sent := sent p0 @ [?msg], pending := drop m (pending p0),
                              buffer := rest, pmatch := Some gs\<rparr>)"
      by (simp add: upd_driver_def)
    from 5 6 have v: "v = Some n" "conversation_id (drivers w' i) = v"
      by (simp_all add: upd_driver_def)
    from v p0 p' ds 4 g show ?thesis by auto
  qed
  have others: "conversation_id (drivers w' j) = conversation_id (drivers w j)" if "j \<noteq> i" for j
  proof -
    have k: "keeps (\<lambda>d. conversation_id d) (bind (send_message i ?msg)
       (\<lambda>_. bind (expect i selecting_pattern)
       (\<lambda>_. bind (match_group i 1)
       (\<lambda>g. lift (py_int g)))))"
      by (intro keeps_bind keeps_send_message keeps_expect keeps_match_group keeps_lift) simp_all
    show ?thesis
      using assms that keepsD [OF k, of w _ _ j]
      by (auto simp: select_conversation_def bind_def return_def upd_driver_def lift_def
               split: prod.splits sum.splits)
  qed
  have fail: "conversation_id (drivers w' i) = conversation_id (drivers w i)" if "r = Inl e" for e
  proof -
    have k: "keeps (\<lambda>d. conversation_id d) (bind (send_message i ?msg)
       (\<lambda>_. bind (expect i selecting_pattern)
       (\<lambda>_. bind (match_group i 1)
       (\<lambda>g. lift (py_int g)))))"
      by (intro keeps_bind keeps_send_message keeps_expect keeps_match_group keeps_lift) simp_all
    show ?thesis
      using assms that keepsD [OF k, of w _ _ i]
      by (auto simp: select_conversation_def bind_def return_def upd_driver_def lift_def
               split: prod.splits sum.splits)
  qed
  from tr ok fail others show ?thesis by blast
qed

lemma join_conversation_id:
  "conversation_id (drivers (snd (join_conversation i cid w)) j) =
     (case expect i (invitation_pattern cid) w of
        (Inl e, w1) \<Rightarrow> conversation_id (drivers w j)
      | (Inr k, w1) \<Rightarrow> conversation_id (drivers (snd (select_conversation i cid w1)) j))"
proof -
  obtain r1 w1 where e: "expect i (invitation_pattern cid) w = (r1, w1)" by fastforce
  from keepsD [OF keeps_expect e, of conversation_id j]
  have k1: "conversation_id (drivers w1 j) = conversation_id (drivers w j)" by simp
  show ?thesis
  proof (cases r1)
    case (Inl err)
    with e k1 show ?thesis by (simp add: join_conversation_def bind_def)
  next
    case (Inr k)
    obtain r2 w2 where s: "select_conversation i cid w1 = (r2, w2)" by fastforce
    have rest: "keeps conversation_id (bind (send_message i ''/join'')
                  (\<lambda>_. bind (expect i you_joined_pattern) (\<lambda>_. return ())))"
      by (intro keeps_bind keeps_send_message keeps_expect keeps_return) simp_all
    show ?thesis
    proof (cases r2)
      case (Inl err)
      with e Inr s show ?thesis by (simp add: join_conversation_def bind_def)
    next
      case (Inr v)
      with e \<open>r1 = Inr k\<close> s rest [unfolded keeps_def, rule_format, of w2 j] show ?thesis
        by (simp add: join_conversation_def bind_def [of "expect i (invitation_pattern cid)"]
                      bind_def [of "select_conversation i cid"])
    qed
  qed
qed

lemma invite_and_join_conversation_id:
  "conversation_id (drivers (snd (invite_and_join_conversation i j w)) j') =
     (case invite_conversation i (username (drivers w j)) w of
        (Inl e, w1) \<Rightarrow> conversation_id (drivers w j')
      | (Inr u, w1) \<Rightarrow>
          conversation_id (drivers (snd (join_conversation j (conversation_id (drivers w1 i)) w1)) j'))"
proof -
  obtain r1 w1 where e: "invite_conversation i (username (drivers w j)) w = (r1, w1)"
    by fastforce
  from keepsD [OF keeps_invite e, of conversation_id j']
  have k1: "conversation_id (drivers w1 j') = conversation_id (drivers w j')" by simp
  show ?thesis
  proof (cases r1)
    case (Inl err)
    with e k1 show ?thesis by (simp add: invite_and_join_conversation_def bind_def)
  next
    case (Inr u)
    obtain r2 w2 where s: "join_conversation j (conversation_id (drivers w1 i)) w1 = (r2, w2)"
      by fastforce
    show ?thesis
    proof (cases r2)
      case (Inl err)
      with e Inr s show ?thesis by (simp add: invite_and_join_conversation_def bind_def)
    next
      case (Inr v)
      have "keeps conversation_id (bind (expect i pat) (\<lambda>_. return ()))" for pat
        by (intro keeps_bind keeps_expect keeps_return) simp_all
      from this [unfolded keeps_def, rule_format, of _ w2 j'] e \<open>r1 = Inr u\<close> s Inr
      show ?thesis
        by (simp add: invite_and_join_conversation_def
              bind_def [of "invite_conversation i (username (drivers w j))"]
              bind_def [of "join_conversation j (conversation_id (drivers w1 i))"])
    qed
  qed
qed

lemma take_append_length: "take (length xs + n) (xs @ ys) = xs @ take n ys"
  by simp

subsection \<open>Running the model on the scenarios\<close>

lemmas run_expect =
  bind_def return_def lift_def send_message_def expect_def call_process_def sendline_def
  expect_loop.simps read_nonblocking_def maxread_def match_group_def py_int_def digit_val_def
  format_id_def str_int_def str_nat.simps digit_char_def
  selecting_pattern_def lit_def is_digit_def
  alice_running_def upd_driver_def fresh_world_def running_def arriving_def
  record_call_def newline_def


lemmas run_read =
  read_line_def read_event_def read_line_loop_unfold read1_unfold_Suc
  alice_running_def upd_driver_def fresh_world_def running_def arriving_def
  record_call_def newline_def

lemmas run_re =
  re_match_def r_message_def lit_def is_digit_def is_word_def newline_def

lemma takeWhile_no_newline: "newline \<notin> set (takeWhile (\<lambda>c. c \<noteq> newline) s)"
  by (auto dest: set_takeWhileD)


subsection \<open>Operations on a driver without a process\<close>

text \<open>
  C9. On a driver whose \<open>_process\<close> is still \<open>None\<close>, each of \<open>send_message\<close>,
  \<open>expect\<close>, \<open>set_debug\<close> and \<open>read_line\<close> fails: the use of an attribute of \<open>None\<close>
  raises, which is the failure the specification calls ProcessUnavailableError. No
  driver is changed by the failed call.
\<close>

theorem no_process_fails:
  assumes "process (drivers w i) = None"
  shows "fst (send_message i message w) = Inl AttributeError
       \<and> fst (expect i pat w) = Inl AttributeError
       \<and> fst (set_debug i enable w) = Inl AttributeError
       \<and> fst (read_line i tmo w) = Inl AttributeError
       \<and> drivers (snd (send_message i message w)) = drivers w
       \<and> drivers (snd (expect i pat w)) = drivers w
       \<and> drivers (snd (set_debug i enable w)) = drivers w
       \<and> drivers (snd (read_line i tmo w)) = drivers w"
proof -
  have cp: "call_process i c f w = (Inl AttributeError, w)" for c
    and f :: "real \<Rightarrow> process \<Rightarrow> (error + 'a) \<times> real \<times> process"
    using assms by (simp add: call_process_def)
  have "send_message i message w = (Inl AttributeError, w)"
    by (simp add: send_message_def cp)
  moreover have "expect i pat w = (Inl AttributeError, w)"
    by (simp add: expect_def cp)
  moreover have "fst (set_debug i enable w) = Inl AttributeError"
    and "drivers (snd (set_debug i enable w)) = drivers w"
    using assms by (simp_all add: set_debug_def record_call_def Let_def)
  moreover have "read_line i tmo w = (Inl AttributeError, w)"
    by (simp add: read_line_def read_line_loop_unfold [of i _ _ w] cp)
  ultimately show ?thesis by simp
qed

theorem no_process_fails_witness:
  "process (drivers fresh_world 0) = None
   \<and> fst (send_message 0 ''/create'' fresh_world) = Inl AttributeError
   \<and> fst (expect 0 connected_pattern fresh_world) = Inl AttributeError
   \<and> fst (set_debug 0 True fresh_world) = Inl AttributeError
   \<and> fst (read_line 0 5 fresh_world) = Inl AttributeError"
proof -
  have h: "process (drivers fresh_world 0) = None"
    by (simp add: fresh_world_def alice_def Client_init_def)
  from no_process_fails [OF h, of "''/create''" connected_pattern True 5] h
  show ?thesis by simp
qed

subsection \<open>Stopping a driver\<close>

text \<open>
  C8. \<open>stop\<close> never fails. When the driver has a process, the process is terminated
  and is not alive afterwards; nothing else in any driver changes. A second \<open>stop\<close>
  leaves the drivers as the first one left them, and \<open>stop\<close> on a driver with no
  process, or with a process that is already dead, changes no driver (with no process
  at all, it changes nothing in the world).
\<close>

theorem stop_terminates:
  "fst (stop i w) = Inr ()
   \<and> drivers (snd (stop i w)) =
       (drivers w)(i := (drivers w i)\<lparr>process := map_option terminate (process (drivers w i))\<rparr>)
   \<and> (\<forall>p. process (drivers w i) = Some p \<longrightarrow>
          process (drivers (snd (stop i w)) i) = Some (p\<lparr>alive := False\<rparr>))
   \<and> drivers (snd (stop i (snd (stop i w)))) = drivers (snd (stop i w))
   \<and> (process (drivers w i) = None \<longrightarrow> snd (stop i w) = w)
   \<and> (\<forall>p. process (drivers w i) = Some p \<and> \<not> alive p \<longrightarrow> drivers (snd (stop i w)) = drivers w)"
proof (cases "process (drivers w i)")
  case None
  then have "(drivers w)(i := (drivers w i)\<lparr>process := None\<rparr>) = drivers w"
    by (simp add: process_same)
  with None show ?thesis by (simp add: stop_def)
next
  case (Some p)
  have s: "stop i w' = (Inr (), upd_driver i (\<lambda>d. d\<lparr>process := Some (terminate q)\<rparr>)
                                  ((record_call i Terminate w')\<lparr>clock := clock w'\<rparr>))"
    if "process (drivers w' i) = Some q" for w' q
    using that by (simp add: stop_def call_process_def)
  let ?w1 = "snd (stop i w)"
  have d1: "drivers ?w1 = (drivers w)(i := (drivers w i)\<lparr>process := Some (terminate p)\<rparr>)"
    by (simp add: s [OF Some] upd_driver_def record_call_def)
  then have p1: "process (drivers ?w1 i) = Some (terminate p)" by simp
  have d2: "drivers (snd (stop i ?w1)) = drivers ?w1"
    by (simp add: s [OF p1] upd_driver_def record_call_def d1 terminate_def)
  have dead: "\<not> alive p \<Longrightarrow> (drivers w)(i := (drivers w i)\<lparr>process := Some (terminate p)\<rparr>) = drivers w"
    using Some by (simp add: terminate_def process_same)
  show ?thesis
    using Some d1 d2 dead by (auto simp: s [OF Some] terminate_def)
qed

theorem stop_terminates_witness:
  "process (drivers (alice_running (arriving 0 ''** Connected'')) 0)
     = Some (running (arriving 0 ''** Connected''))
   \<and> process (drivers (snd (stop 0 (alice_running (arriving 0 ''** Connected'')))) 0)
     = Some ((running (arriving 0 ''** Connected''))\<lparr>alive := False\<rparr>)
   \<and> process (drivers fresh_world 0) = None
   \<and> snd (stop 0 fresh_world) = fresh_world"
proof -
  have h: "process (drivers (alice_running (arriving 0 ''** Connected'')) 0)
             = Some (running (arriving 0 ''** Connected''))"
    by (simp add: alice_running_def upd_driver_def)
  have n: "process (drivers fresh_world 0) = None"
    by (simp add: fresh_world_def alice_def Client_init_def)
  from stop_terminates [of 0 "alice_running (arriving 0 ''** Connected'')"] h
  have a: "process (drivers (snd (stop 0 (alice_running (arriving 0 ''** Connected'')))) 0)
             = Some ((running (arriving 0 ''** Connected''))\<lparr>alive := False\<rparr>)"
    by blast
  from stop_terminates [of 0 fresh_world] n
  have b: "snd (stop 0 fresh_world) = fresh_world"
    by blast
  from h a n b show ?thesis by blast
qed

subsection \<open>Connecting twice\<close>

text \<open>
  C5. On a driver that has a process, \<open>connect\<close> returns at once: it starts no process
  and waits for nothing (no call is made at all), the process and the clock are as
  before, and the only assignment is the one to \<open>self.env\<close>. So a driver never holds
  more than the one process it started when it had none.
\<close>

theorem connect_idempotent:
  assumes "process (drivers w i) = Some p"
  shows "connect i room server w =
           (Inr (), upd_driver i
                      (\<lambda>d. d\<lparr>env := [(''LD_LIBRARY_PATH'',
                                        np1sec_path d @ '':'' @ ld_library_path d)]\<rparr>) w)
       \<and> trace (snd (connect i room server w)) = trace w
       \<and> clock (snd (connect i room server w)) = clock w
       \<and> unspawned (snd (connect i room server w)) = unspawned w
       \<and> process (drivers (snd (connect i room server w)) i) = Some p
       \<and> (\<forall>j. j \<noteq> i \<longrightarrow> drivers (snd (connect i room server w)) j = drivers w j)"
  using assms by (simp add: connect_def Let_def upd_driver_def)

theorem connect_idempotent_witness:
  "process (drivers (alice_running (arriving 0 ''** Connected'')) 0)
     = Some (running (arriving 0 ''** Connected''))
   \<and> fst (connect 0 ''room'' ''conference.localhost''
             (alice_running (arriving 0 ''** Connected''))) = Inr ()
   \<and> trace (snd (connect 0 ''room'' ''conference.localhost''
                   (alice_running (arriving 0 ''** Connected'')))) = []
   \<and> process (drivers (snd (connect 0 ''room'' ''conference.localhost''
                              (alice_running (arriving 0 ''** Connected'')))) 0)
     = Some (running (arriving 0 ''** Connected''))"
proof -
  have h: "process (drivers (alice_running (arriving 0 ''** Connected'')) 0)
             = Some (running (arriving 0 ''** Connected''))"
    by (simp add: alice_running_def upd_driver_def)
  have t: "trace (alice_running (arriving 0 ''** Connected'')) = []"
    by (simp add: alice_running_def upd_driver_def fresh_world_def)
  note r = connect_idempotent [OF h, of "''room''" "''conference.localhost''"]
  from r have 1: "fst (connect 0 ''room'' ''conference.localhost''
             (alice_running (arriving 0 ''** Connected''))) = Inr ()"
    by (simp only: fst_conv)
  from r t have 2: "trace (snd (connect 0 ''room'' ''conference.localhost''
                   (alice_running (arriving 0 ''** Connected'')))) = []"
    by metis
  from r have 3: "process (drivers (snd (connect 0 ''room'' ''conference.localhost''
                              (alice_running (arriving 0 ''** Connected'')))) 0)
     = Some (running (arriving 0 ''** Connected''))"
    by blast
  from h 1 2 3 show ?thesis by blast
qed

subsection \<open>The deadline of read_line\<close>



subsection \<open>What read_event puts into the queue\<close>

text \<open>
  C1, as amended. \<open>read_event\<close> reads one line, the text up to the next newline. If
  the read fails, the queue is as before. If the line matches the message pattern, the
  line itself is appended to the queue, unchanged, and nothing else is: no object with
  separate fields is built. The groups of the match are the conversation id, the sender
  and the body of which the line is made up. A line that does not match leaves the queue
  as it was. Conversely every line \<open>** <id> <sender> body\<close> with a non-empty
  id of digits, a non-empty sender of word characters and a body without newline
  matches, with these three parts as its groups.
\<close>

theorem read_event_enqueues_line:
  assumes "process (drivers w i) = Some p" and "read_event i tmo w = (r, w')"
  shows "(\<forall>e. r = Inl e \<longrightarrow> messages (drivers w' i) = messages (drivers w i))
       \<and> (r = Inr () \<longrightarrow>
            (let line = takeWhile (\<lambda>c. c \<noteq> newline) (map snd (pending p)) in
             case re_match r_message line of
               None \<Rightarrow> messages (drivers w' i) = messages (drivers w i)
             | Some gs \<Rightarrow>
                 messages (drivers w' i) = messages (drivers w i) @ [line]
                 \<and> (\<exists>ds ws body. gs = [line, ds, ws, body] \<and> line = message_line ds ws body
                       \<and> ds \<noteq> [] \<and> list_all is_digit ds \<and> ws \<noteq> [] \<and> list_all is_word ws)))
       \<and> (\<forall>ds ws body. ds \<noteq> [] \<and> list_all is_digit ds \<and> ws \<noteq> [] \<and> list_all is_word ws
              \<and> newline \<notin> set body \<longrightarrow>
            re_match r_message (message_line ds ws body)
              = Some [message_line ds ws body, ds, ws, body])"
proof -
  obtain r1 w1 where l: "read_line i tmo w = (r1, w1)" by fastforce
  then have ll: "read_line_loop i (clock w + tmo) [] w = (r1, w1)" by (simp add: read_line_def)
  from read_line_loop_drivers [OF ll] have m1: "messages (drivers w1 i) = messages (drivers w i)"
    by (auto simp: consumed_def)
  have fail: "messages (drivers w' i) = messages (drivers w i)" if "r = Inl e" for e
    using that assms(2) l m1 by (auto simp: read_event_def split: sum.splits option.splits)
  let ?line = "takeWhile (\<lambda>c. c \<noteq> newline) (map snd (pending p))"
  have ok: "case re_match r_message ?line of
               None \<Rightarrow> messages (drivers w' i) = messages (drivers w i)
             | Some gs \<Rightarrow>
                 messages (drivers w' i) = messages (drivers w i) @ [?line]
                 \<and> (\<exists>ds ws body. gs = [?line, ds, ws, body] \<and> ?line = message_line ds ws body
                       \<and> ds \<noteq> [] \<and> list_all is_digit ds \<and> ws \<noteq> [] \<and> list_all is_word ws)"
    if "r = Inr ()"
  proof -
    from that assms(2) l obtain x where r1: "r1 = Inr x"
      by (cases r1) (auto simp: read_event_def)
    from read_line_loop_result [OF ll [unfolded r1] assms(1)] have x: "x = ?line" by simp
    show ?thesis
    proof (cases "re_match r_message ?line")
      case None
      with assms(2) l r1 x m1 show ?thesis by (simp add: read_event_def)
    next
      case (Some gs)
      with assms(2) l r1 x m1
      have q: "messages (drivers w' i) = messages (drivers w i) @ [?line]"
        by (auto simp: read_event_def upd_driver_def)
      from Some obtain gs' rr where rm: "rmatch r_message ?line = Some (gs', rr)"
        and gs: "gs = take (length ?line - length rr) ?line # gs'"
        by (auto simp: re_match_def split: option.splits)
      from r_message_sound [OF rm] obtain ds ws body
        where s: "?line = message_line ds ws body @ rr" "gs' = [ds, ws, body]"
          "rr = [] \<or> rr = [newline]" "ds \<noteq> []" "list_all is_digit ds" "ws \<noteq> []"
          "list_all is_word ws"
        by blast
      have "newline \<notin> set ?line" by (rule takeWhile_no_newline)
      with s(1) s(3) have rr: "rr = []"
        by (metis in_set_conv_decomp append_assoc)
      with s(1) gs s(2) have "gs = [?line, ds, ws, body]" "?line = message_line ds ws body"
        by simp_all
      with q Some s show ?thesis by auto
    qed
  qed
  have complete: "re_match r_message (message_line ds ws body)
              = Some [message_line ds ws body, ds, ws, body]"
    if "ds \<noteq> []" "list_all is_digit ds" "ws \<noteq> []" "list_all is_word ws" "newline \<notin> set body"
    for ds ws body
    using r_message_complete [OF that] by (simp add: re_match_def)
  from fail ok complete show ?thesis by (simp add: Let_def)
qed

theorem read_event_enqueues_line_witness:
  "process (drivers hello_bob 0)
     = Some (running (arriving 0 (''** <42> <bob> hello world'' @ [newline])))
   \<and> fst (read_event 0 1 hello_bob) = Inr ()
   \<and> messages (drivers (snd (read_event 0 1 hello_bob)) 0) = [''** <42> <bob> hello world'']
   \<and> re_match r_message (message_line ''42'' ''bob'' ''hello world'')
       = Some [''** <42> <bob> hello world'', ''42'', ''bob'', ''hello world'']"
proof -
  have h: "process (drivers hello_bob 0)
             = Some (running (arriving 0 (''** <42> <bob> hello world'' @ [newline])))"
    by (simp add: hello_bob_def alice_running_def upd_driver_def)
  have r: "fst (read_event 0 1 hello_bob) = Inr ()"
    by (simp add: hello_bob_def run_read run_re)
  have m: "messages (drivers hello_bob 0) = []"
    by (simp add: hello_bob_def alice_running_def upd_driver_def fresh_world_def alice_def
                  Client_init_def)
  have l: "takeWhile (\<lambda>c. c \<noteq> newline)
             (map snd (pending (running (arriving 0 (''** <42> <bob> hello world'' @ [newline])))))
           = ''** <42> <bob> hello world''"
    by (simp add: running_def arriving_def newline_def)
  have g: "re_match r_message ''** <42> <bob> hello world''
             = Some [''** <42> <bob> hello world'', ''42'', ''bob'', ''hello world'']"
    by (simp add: run_re)
  have d: "''42'' \<noteq> [] \<and> list_all is_digit ''42'' \<and> ''bob'' \<noteq> [] \<and> list_all is_word ''bob''
           \<and> newline \<notin> set ''hello world''"
    by (simp add: is_digit_def is_word_def newline_def)
  note t = read_event_enqueues_line [OF h prod.collapse [symmetric], where tmo = 1]
  note t2 = t [THEN conjunct2, THEN conjunct1, THEN mp, OF r]
  note t3 = t [THEN conjunct2, THEN conjunct2, THEN spec, THEN spec, THEN spec, THEN mp, OF d]
  from t2 have "messages (drivers (snd (read_event 0 1 hello_bob)) 0)
                  = [''** <42> <bob> hello world'']"
    unfolding Let_def l g by (simp add: m)
  with t3 h r show ?thesis by (simp add: message_line_def)
qed

text \<open>
  C1 as stated fails: after \<open>read_event\<close> has read the line \<open>** <1> <alice> hi\<close>, the
  queue holds that line of 17 bytes. The entry is a string: it is none of the three
  groups, and it has no field that holds one.
\<close>

theorem read_event_no_fields_counterexample:
  "messages (drivers (snd (read_event 0 1 hi_alice)) 0) = [''** <1> <alice> hi'']
   \<and> re_match r_message ''** <1> <alice> hi''
       = Some [''** <1> <alice> hi'', ''1'', ''alice'', ''hi'']
   \<and> ''** <1> <alice> hi'' \<notin> {''1'', ''alice'', ''hi''}"
  by (simp add: hi_alice_def run_read run_re alice_def Client_init_def)

subsection \<open>Failed reads\<close>

text \<open>
  C7, as amended. When \<open>read_line\<close>, \<open>read_event\<close> or \<open>read_message\<close> fails, every
  driver is as before except that the first \<open>n\<close> bytes of the child's pending output
  are gone, for some \<open>n\<close>: the queue of every driver, the conversation id and the rest
  of the process object are unchanged, and the bytes read before the failure are not
  put back. When \<open>expect\<close> fails with \<open>TIMEOUT\<close>, the bytes it read are kept in
  pexpect's buffer, the last match is cleared, and nothing else changes. The calls do
  fail with \<open>TIMEOUT\<close>: the three reads when the child is alive and no newline arrives
  by the deadline (for \<open>read_message\<close>, with an empty queue), \<open>expect\<close> when the child
  is alive and silent and the buffer holds no match.
\<close>

theorem timeout_keeps_queue:
  "(read_line i tmo w = (Inl e, w') \<longrightarrow>
      (\<exists>n. drivers w' = consumed i n (drivers w))
      \<and> (\<forall>j. messages (drivers w' j) = messages (drivers w j)))
 \<and> (read_event i tmo w = (Inl e, w') \<longrightarrow>
      (\<exists>n. drivers w' = consumed i n (drivers w))
      \<and> (\<forall>j. messages (drivers w' j) = messages (drivers w j)))
 \<and> (read_message i tmo w = (Inl e, w') \<longrightarrow>
      (\<exists>n. drivers w' = consumed i n (drivers w))
      \<and> (\<forall>j. messages (drivers w' j) = messages (drivers w j)))
 \<and> (expect i pat w = (Inl TIMEOUT, w') \<longrightarrow>
      (\<exists>n. drivers w' =
         (drivers w)(i := (drivers w i)\<lparr>process := map_option (buffered n) (process (drivers w i))\<rparr>))
      \<and> (\<forall>j. messages (drivers w' j) = messages (drivers w j)))
 \<and> (\<forall>p. process (drivers w i) = Some p \<and> alive p
          \<and> no_line_by (clock w + max 0 tmo) (pending p) \<longrightarrow>
      fst (read_line i tmo w) = Inl TIMEOUT
      \<and> fst (read_event i tmo w) = Inl TIMEOUT
      \<and> (messages (drivers w i) = [] \<longrightarrow> fst (read_message i tmo w) = Inl TIMEOUT))
 \<and> (\<forall>p. process (drivers w i) = Some p \<and> alive p \<and> pending p = []
          \<and> re_search pat (buffer p) = None \<longrightarrow>
      fst (expect i pat w) = Inl TIMEOUT)"
proof -
  have q: "\<forall>j. messages (drivers w' j) = messages (drivers w j)"
    if "\<exists>n. drivers w' = consumed i n (drivers w)"
    using that by (auto simp: messages_consumed)
  have 1: "\<exists>n. drivers w' = consumed i n (drivers w)" if "read_line i tmo w = (Inl e, w')"
    using that read_line_loop_drivers [of i "clock w + tmo" "[]" w "Inl e" w']
    by (simp add: read_line_def)
  have 2: "\<exists>n. drivers w' = consumed i n (drivers w)" if "read_event i tmo w = (Inl e, w')"
    using read_event_drivers(2) [OF that] by simp
  have 3: "\<exists>n. drivers w' = consumed i n (drivers w)" if "read_message i tmo w = (Inl e, w')"
    using that read_message_loop_error [of i "clock w + tmo" w e w']
    by (simp add: read_message_def)
  have 4: "(\<exists>n. drivers w' =
         (drivers w)(i := (drivers w i)\<lparr>process := map_option (buffered n) (process (drivers w i))\<rparr>))
      \<and> (\<forall>j. messages (drivers w' j) = messages (drivers w j))"
    if "expect i pat w = (Inl TIMEOUT, w')"
    using expect_timeout_drivers [OF that] by auto
  have 5: "fst (read_line i tmo w) = Inl TIMEOUT \<and> fst (read_event i tmo w) = Inl TIMEOUT
      \<and> (messages (drivers w i) = [] \<longrightarrow> fst (read_message i tmo w) = Inl TIMEOUT)"
    if "process (drivers w i) = Some p" "alive p"
       "no_line_by (clock w + max 0 tmo) (pending p)" for p
    using read_line_timeout [OF that] read_event_timeout [OF that] read_message_timeout [OF that]
    by simp
  have 6: "fst (expect i pat w) = Inl TIMEOUT"
    if "process (drivers w i) = Some p" "alive p" "pending p = []"
       "re_search pat (buffer p) = None" for p
    using expect_silent_timeout [OF that] .
  from 1 2 3 4 q have a: "(read_line i tmo w = (Inl e, w') \<longrightarrow>
      (\<exists>n. drivers w' = consumed i n (drivers w))
      \<and> (\<forall>j. messages (drivers w' j) = messages (drivers w j)))
 \<and> (read_event i tmo w = (Inl e, w') \<longrightarrow>
      (\<exists>n. drivers w' = consumed i n (drivers w))
      \<and> (\<forall>j. messages (drivers w' j) = messages (drivers w j)))
 \<and> (read_message i tmo w = (Inl e, w') \<longrightarrow>
      (\<exists>n. drivers w' = consumed i n (drivers w))
      \<and> (\<forall>j. messages (drivers w' j) = messages (drivers w j)))
 \<and> (expect i pat w = (Inl TIMEOUT, w') \<longrightarrow>
      (\<exists>n. drivers w' =
         (drivers w)(i := (drivers w i)\<lparr>process := map_option (buffered n) (process (drivers w i))\<rparr>))
      \<and> (\<forall>j. messages (drivers w' j) = messages (drivers w j)))"
    by blast
  from 5 6 have b: "(\<forall>p. process (drivers w i) = Some p \<and> alive p
          \<and> no_line_by (clock w + max 0 tmo) (pending p) \<longrightarrow>
      fst (read_line i tmo w) = Inl TIMEOUT
      \<and> fst (read_event i tmo w) = Inl TIMEOUT
      \<and> (messages (drivers w i) = [] \<longrightarrow> fst (read_message i tmo w) = Inl TIMEOUT))
 \<and> (\<forall>p. process (drivers w i) = Some p \<and> alive p \<and> pending p = []
          \<and> re_search pat (buffer p) = None \<longrightarrow>
      fst (expect i pat w) = Inl TIMEOUT)"
    by blast
  from a b show ?thesis by blast
qed

theorem timeout_keeps_queue_witness:
  "read_line 0 1 half_line = (Inl TIMEOUT, snd (read_line 0 1 half_line))
   \<and> (\<exists>n. drivers (snd (read_line 0 1 half_line)) = consumed 0 n (drivers half_line))
   \<and> (\<forall>j. messages (drivers (snd (read_line 0 1 half_line)) j) = messages (drivers half_line j))"
proof -
  have "fst (read_line 0 1 half_line) = Inl TIMEOUT"
    by (simp add: half_line_def run_read)
  then have h: "read_line 0 1 half_line = (Inl TIMEOUT, snd (read_line 0 1 half_line))"
    by (metis prod.collapse)
  from timeout_keeps_queue [of 0 1 half_line TIMEOUT "snd (read_line 0 1 half_line)",
         THEN conjunct1] h
  show ?thesis by blast
qed

text \<open>
  C7 as stated fails: \<open>read_line\<close> with a timeout of one second on a child that has
  written half of a line fails with \<open>TIMEOUT\<close> and leaves another process state. The
  half line is lost: the second attempt returns the other half only, where an
  undisturbed \<open>read_line\<close> would have returned the whole line.
\<close>

theorem timeout_loses_bytes_counterexample:
  "fst (read_line 0 1 half_line) = Inl TIMEOUT
   \<and> process (drivers (snd (read_line 0 1 half_line)) 0) \<noteq> process (drivers half_line 0)
   \<and> fst (read_line 0 10 (snd (read_line 0 1 half_line))) = Inr ''ice> hi''
   \<and> fst (read_line 0 10 half_line) = Inr ''** <1> <alice> hi''"
  by (simp add: half_line_def run_read)

subsection \<open>The order of the queue\<close>

text \<open>
  C4. The queue is first in, first out. \<open>read_message\<close> on a non-empty queue returns
  the oldest entry and removes it, without any other effect. \<open>read_event\<close> changes
  the queue by at most one entry, added at the end. So when two calls of \<open>read_event\<close>
  have put \<open>E1\<close> and then \<open>E2\<close> into an empty queue, two calls of \<open>read_message\<close> return
  \<open>E1\<close> and then \<open>E2\<close>. Inside \<open>read_message\<close>, as soon as a \<open>read_event\<close> has
  put something into the queue it is returned, with the world as that \<open>read_event\<close>
  left it: nothing more is read. A \<open>read_message\<close> that started on an empty queue and
  succeeds returns a line that matches the message pattern and leaves the queue empty.
\<close>

theorem message_queue_fifo:
  "(messages (drivers w i) = m # ms \<longrightarrow>
      read_message i tmo w = (Inr m, upd_driver i (\<lambda>d. d\<lparr>messages := ms\<rparr>) w))
 \<and> (\<forall>r w1. read_event i tmo w = (r, w1) \<longrightarrow>
      (\<exists>q. messages (drivers w1 i) = messages (drivers w i) @ q \<and> length q \<le> 1)
      \<and> (\<forall>j. j \<noteq> i \<longrightarrow> messages (drivers w1 j) = messages (drivers w j)))
 \<and> (\<forall>u1 u2 w1 w2 E1 E2.
      messages (drivers w i) = [] \<and> read_event i t1 w = (Inr u1, w1)
      \<and> messages (drivers w1 i) = [E1] \<and> read_event i t2 w1 = (Inr u2, w2)
      \<and> messages (drivers w2 i) = messages (drivers w1 i) @ [E2] \<longrightarrow>
        read_message i t3 w2 = (Inr E1, upd_driver i (\<lambda>d. d\<lparr>messages := [E2]\<rparr>) w2)
        \<and> read_message i t4 (upd_driver i (\<lambda>d. d\<lparr>messages := [E2]\<rparr>) w2)
            = (Inr E2, upd_driver i (\<lambda>d. d\<lparr>messages := []\<rparr>) w2))
 \<and> (\<forall>u w1 x xs.
      messages (drivers w i) = [] \<and> read_event i (max 0 tmo) w = (Inr u, w1)
      \<and> messages (drivers w1 i) = x # xs \<longrightarrow>
        read_message i tmo w = (Inr x, upd_driver i (\<lambda>d. d\<lparr>messages := xs\<rparr>) w1))
 \<and> (\<forall>x w'. messages (drivers w i) = [] \<and> read_message i tmo w = (Inr x, w') \<longrightarrow>
        messages (drivers w' i) = [] \<and> re_match r_message x \<noteq> None)"
proof -
  have pop: "read_message j t v = (Inr x, upd_driver j (\<lambda>d. d\<lparr>messages := xs\<rparr>) v)"
    if "messages (drivers v j) = x # xs" for j t v x xs
    using that by (simp add: read_message_def read_message_loop_pop)
  have app: "(\<exists>q. messages (drivers w1 i) = messages (drivers w i) @ q \<and> length q \<le> 1)
      \<and> (\<forall>j. j \<noteq> i \<longrightarrow> messages (drivers w1 j) = messages (drivers w j))"
    if "read_event i tmo w = (r, w1)" for r w1
    using read_event_drivers(1) [OF that] by (auto simp: messages_consumed)
  have two: "read_message i t3 w2 = (Inr E1, upd_driver i (\<lambda>d. d\<lparr>messages := [E2]\<rparr>) w2)
        \<and> read_message i t4 (upd_driver i (\<lambda>d. d\<lparr>messages := [E2]\<rparr>) w2)
            = (Inr E2, upd_driver i (\<lambda>d. d\<lparr>messages := []\<rparr>) w2)"
    if "messages (drivers w1 i) = [E1]" "messages (drivers w2 i) = messages (drivers w1 i) @ [E2]"
    for w1 w2 E1 E2
  proof -
    from that have "messages (drivers w2 i) = E1 # [E2]" by simp
    from pop [OF this] have a: "read_message i t3 w2
        = (Inr E1, upd_driver i (\<lambda>d. d\<lparr>messages := [E2]\<rparr>) w2)" .
    have "messages (drivers (upd_driver i (\<lambda>d. d\<lparr>messages := [E2]\<rparr>) w2) i) = E2 # []"
      by (simp add: upd_driver_def)
    from pop [OF this] a show ?thesis by (simp add: upd_driver_twice)
  qed
  have recheck: "read_message i tmo w = (Inr x, upd_driver i (\<lambda>d. d\<lparr>messages := xs\<rparr>) w1)"
    if "messages (drivers w i) = []" "read_event i (max 0 tmo) w = (Inr u, w1)"
       "messages (drivers w1 i) = x # xs" for u w1 x xs
    using that
    by (simp add: read_message_def read_message_loop_unfold [of i "clock w + tmo" w]
                  read_message_loop_pop)
  have first: "messages (drivers w' i) = [] \<and> re_match r_message x \<noteq> None"
    if "messages (drivers w i) = []" "read_message i tmo w = (Inr x, w')" for x w'
    using that read_message_loop_first [of w i "clock w + tmo" x w']
    by (simp add: read_message_def)
  from pop app two recheck first show ?thesis by blast
qed

theorem message_queue_fifo_witness:
  "messages (drivers two_messages 0) = []
   \<and> fst (read_event 0 1 two_messages) = Inr ()
   \<and> messages (drivers (snd (read_event 0 1 two_messages)) 0) = [''** <1> <bob> one'']
   \<and> fst (read_event 0 1 (snd (read_event 0 1 two_messages))) = Inr ()
   \<and> fst (read_message 0 1 (snd (read_event 0 1 (snd (read_event 0 1 two_messages)))))
       = Inr ''** <1> <bob> one''
   \<and> fst (read_message 0 1
             (snd (read_message 0 1 (snd (read_event 0 1 (snd (read_event 0 1 two_messages)))))))
       = Inr ''** <1> <bob> two''"
proof -
  let ?w1 = "snd (read_event 0 1 two_messages)"
  let ?w2 = "snd (read_event 0 1 ?w1)"
  have m0: "messages (drivers two_messages 0) = []"
    by (simp add: two_messages_def alice_running_def upd_driver_def fresh_world_def alice_def
                  Client_init_def)
  have r1: "fst (read_event 0 1 two_messages) = Inr ()"
    by (simp add: two_messages_def run_read run_re)
  have m1: "messages (drivers ?w1 0) = [''** <1> <bob> one'']"
    by (simp add: two_messages_def run_read run_re alice_def Client_init_def)
  have r2: "fst (read_event 0 1 ?w1) = Inr ()"
    by (simp add: two_messages_def run_read run_re)
  have m2: "messages (drivers ?w2 0) = messages (drivers ?w1 0) @ [''** <1> <bob> two'']"
    by (simp add: two_messages_def run_read run_re alice_def Client_init_def)
  from r1 have e1: "read_event 0 1 two_messages = (Inr (), ?w1)" by (metis prod.collapse)
  from r2 have e2: "read_event 0 1 ?w1 = (Inr (), ?w2)" by (metis prod.collapse)
  note t = message_queue_fifo [of two_messages 0 _ _ 1 1 1 1 1, THEN conjunct2, THEN conjunct2,
      THEN conjunct1, rule_format, of "()" ?w1 "''** <1> <bob> one''" "()" ?w2 "''** <1> <bob> two''"]
  from t m0 e1 m1 e2 m2
  have a: "read_message 0 1 ?w2
             = (Inr ''** <1> <bob> one'', upd_driver 0 (\<lambda>d. d\<lparr>messages := [''** <1> <bob> two'']\<rparr>) ?w2)"
    and b: "read_message 0 1 (upd_driver 0 (\<lambda>d. d\<lparr>messages := [''** <1> <bob> two'']\<rparr>) ?w2)
             = (Inr ''** <1> <bob> two'', upd_driver 0 (\<lambda>d. d\<lparr>messages := []\<rparr>) ?w2)"
    by blast+
  from a b m0 r1 m1 r2 show ?thesis by simp
qed

subsection \<open>Selecting a conversation\<close>




subsection \<open>The current conversation\<close>

text \<open>
  C10. The conversation id of a new driver is \<open>None\<close>. The operations \<open>connect\<close>,
  \<open>create_conversation\<close>, \<open>invite_conversation\<close>, \<open>read_message\<close> and \<open>stop\<close>, and
  also \<open>send_message\<close>, \<open>expect\<close>, \<open>set_debug\<close>, \<open>read_line\<close> and \<open>read_event\<close>,
  leave the conversation id of every driver unchanged. \<open>select_conversation\<close> changes
  only the id of its own driver: to the number given by the digits of the
  \<open>Selecting conversation\<close> confirmation held as the last match when it succeeds, not
  at all when it fails. After \<open>join_conversation\<close> the ids are those that its call of
  \<open>select_conversation\<close> left (or the old ones, when it failed before that call), and
  after \<open>invite_and_join_conversation\<close> they are those that its call of
  \<open>join_conversation\<close> left (or the old ones).
\<close>

theorem conversation_id_invariant:
  "conversation_id (Client_init user password port_no np1sec ld_library prx) = None
   \<and> keeps conversation_id (connect i room server)
   \<and> keeps conversation_id (create_conversation i)
   \<and> keeps conversation_id (invite_conversation i uname)
   \<and> keeps conversation_id (read_message i tmo)
   \<and> keeps conversation_id (stop i)
   \<and> keeps conversation_id (send_message i message)
   \<and> keeps conversation_id (expect i pat)
   \<and> keeps conversation_id (set_debug i enable)
   \<and> keeps conversation_id (read_line i tmo)
   \<and> keeps conversation_id (read_event i tmo)
   \<and> (\<forall>w r w'. select_conversation i cid w = (r, w') \<longrightarrow>
         (\<forall>v. r = Inr v \<longrightarrow>
             conversation_id (drivers w' i) = v
             \<and> (\<exists>p ds n. process (drivers w' i) = Some p
                   \<and> pmatch p = Some [''** Selecting conversation '' @ ds, ds]
                   \<and> py_int ds = Inr n \<and> v = Some n))
         \<and> (\<forall>e. r = Inl e \<longrightarrow> conversation_id (drivers w' i) = conversation_id (drivers w i))
         \<and> (\<forall>j. j \<noteq> i \<longrightarrow> conversation_id (drivers w' j) = conversation_id (drivers w j)))
   \<and> (\<forall>w j. conversation_id (drivers (snd (join_conversation i cid w)) j) =
         (case expect i (invitation_pattern cid) w of
            (Inl e, w1) \<Rightarrow> conversation_id (drivers w j)
          | (Inr k, w1) \<Rightarrow> conversation_id (drivers (snd (select_conversation i cid w1)) j)))
   \<and> (\<forall>w k j. conversation_id (drivers (snd (invite_and_join_conversation i k w)) j) =
         (case invite_conversation i (username (drivers w k)) w of
            (Inl e, w1) \<Rightarrow> conversation_id (drivers w j)
          | (Inr u, w1) \<Rightarrow>
              conversation_id
                (drivers (snd (join_conversation k (conversation_id (drivers w1 i)) w1)) j)))"
proof -
  have 0: "conversation_id (Client_init user password port_no np1sec ld_library prx) = None"
    by (simp add: Client_init_def)
  have 1: "keeps conversation_id (connect i room server)"
    by (rule keeps_connect) simp_all
  have 2: "keeps conversation_id (create_conversation i)"
    by (rule keeps_create) simp
  have 3: "keeps conversation_id (invite_conversation i uname)"
    by (rule keeps_invite) simp
  have 4: "keeps conversation_id (read_message i tmo)"
    by (rule keeps_read_message) simp_all
  have 5: "keeps conversation_id (stop i)"
    by (rule keeps_stop) simp
  have 6: "keeps conversation_id (send_message i message)"
    by (rule keeps_send_message) simp
  have 7: "keeps conversation_id (expect i pat)"
    by (rule keeps_expect) simp
  have 8: "keeps conversation_id (set_debug i enable)"
    by (rule keeps_set_debug) simp
  have 9: "keeps conversation_id (read_line i tmo)"
    by (rule keeps_read_line) simp
  have 10: "keeps conversation_id (read_event i tmo)"
    by (rule keeps_read_event) simp_all
  have 11: "\<forall>w r w'. select_conversation i cid w = (r, w') \<longrightarrow>
         (\<forall>v. r = Inr v \<longrightarrow>
             conversation_id (drivers w' i) = v
             \<and> (\<exists>p ds n. process (drivers w' i) = Some p
                   \<and> pmatch p = Some [''** Selecting conversation '' @ ds, ds]
                   \<and> py_int ds = Inr n \<and> v = Some n))
         \<and> (\<forall>e. r = Inl e \<longrightarrow> conversation_id (drivers w' i) = conversation_id (drivers w i))
         \<and> (\<forall>j. j \<noteq> i \<longrightarrow> conversation_id (drivers w' j) = conversation_id (drivers w j))"
  proof (intro allI impI)
    fix w r w'
    assume "select_conversation i cid w = (r, w')"
    from select_effect [OF this]
    show "(\<forall>v. r = Inr v \<longrightarrow>
             conversation_id (drivers w' i) = v
             \<and> (\<exists>p ds n. process (drivers w' i) = Some p
                   \<and> pmatch p = Some [''** Selecting conversation '' @ ds, ds]
                   \<and> py_int ds = Inr n \<and> v = Some n))
         \<and> (\<forall>e. r = Inl e \<longrightarrow> conversation_id (drivers w' i) = conversation_id (drivers w i))
         \<and> (\<forall>j. j \<noteq> i \<longrightarrow> conversation_id (drivers w' j) = conversation_id (drivers w j))"
      by blast
  qed
  have 12: "\<forall>w j. conversation_id (drivers (snd (join_conversation i cid w)) j) =
         (case expect i (invitation_pattern cid) w of
            (Inl e, w1) \<Rightarrow> conversation_id (drivers w j)
          | (Inr k, w1) \<Rightarrow> conversation_id (drivers (snd (select_conversation i cid w1)) j))"
    by (intro allI) (rule join_conversation_id)
  have 13: "\<forall>w k j. conversation_id (drivers (snd (invite_and_join_conversation i k w)) j) =
         (case invite_conversation i (username (drivers w k)) w of
            (Inl e, w1) \<Rightarrow> conversation_id (drivers w j)
          | (Inr u, w1) \<Rightarrow>
              conversation_id
                (drivers (snd (join_conversation k (conversation_id (drivers w1 i)) w1)) j))"
    by (intro allI) (rule invite_and_join_conversation_id)
  show ?thesis
    using 0 1 2 3 4 5 6 7 8 9 10 11 12 13 by (intro conjI) assumption+
qed

theorem conversation_id_invariant_witness:
  "(1::nat) \<noteq> 0
   \<and> conversation_id (drivers (snd (select_conversation 0 (Some 12) confirms_12)) 1)
       = conversation_id (drivers confirms_12 1)
   \<and> conversation_id (drivers (snd (select_conversation 0 (Some 12) confirms_12)) 0) = Some 12
   \<and> conversation_id (drivers (snd (stop 0 confirms_12)) 0)
       = conversation_id (drivers confirms_12 0)"
proof -
  note t = conversation_id_invariant [where i = 0 and cid = "Some 12"]
  note sel = t [THEN conjunct2, THEN conjunct2, THEN conjunct2, THEN conjunct2, THEN conjunct2,
                THEN conjunct2, THEN conjunct2, THEN conjunct2, THEN conjunct2, THEN conjunct2,
                THEN conjunct2, THEN conjunct1, rule_format, OF prod.collapse [symmetric]]
  note stp = t [THEN conjunct2, THEN conjunct2, THEN conjunct2, THEN conjunct2, THEN conjunct2,
                THEN conjunct1, unfolded keeps_def, rule_format]
  have r: "fst (select_conversation 0 (Some 12) confirms_12) = Inr (Some 12)"
    by (simp add: confirms_12_def select_conversation_def run_expect)
  have a: "conversation_id (drivers (snd (select_conversation 0 (Some 12) confirms_12)) 1)
             = conversation_id (drivers confirms_12 1)"
    using sel [of confirms_12] by (simp del: One_nat_def)
  have b: "conversation_id (drivers (snd (select_conversation 0 (Some 12) confirms_12)) 0) = Some 12"
    using sel [of confirms_12] r by blast
  have c: "conversation_id (drivers (snd (stop 0 confirms_12)) 0)
             = conversation_id (drivers confirms_12 0)"
    by (rule stp)
  from a b c show ?thesis by simp
qed

subsection \<open>The order of the handshake\<close>



end
